theory Spec2Isabelle
  imports Complex_Main "HOL-Library.Multiset"
begin

section \<open>Python values used by \<open>get_metrics\<close> (src/fastqp/cli.py)\<close>

text \<open>
  Exceptions and fatal exits are values. \<open>SystemExit msg\<close> is \<open>sys.exit(msg)\<close> with a
  string argument: the interpreter prints the message on stderr and leaves with status 1.
  \<open>Raised\<close> stands for an exception of a collaborator that is not part of cli.py
  (\<open>scipy.stats.linregress\<close>).
\<close>

datatype error =
    SystemExit string
  | ZeroDivisionError
  | UnboundLocalError
  | TypeError
  | KeyError
  | IndexError
  | Raised string

fun exit_status :: "error \<Rightarrow> int" where
  "exit_status (SystemExit msg) = 1"
| "exit_status e = 1"

text \<open>
  The code is read as Python 3: \<open>/\<close> on ints is true division and \<open>map\<close> is lazy.
  Python ints are unbounded: \<open>int\<close>. Python floats are modelled by \<open>real\<close>, exact
  arithmetic standing for the rounded one; cli.py only divides, multiplies and compares
  them. \<open>math.floor(a / b)\<close> on ints is \<open>a div b\<close> (floor division), which is what the
  float quotient gives for \<open>\<bar>a\<bar> < 2 ^ 53\<close>.
\<close>

definition truthy :: "int option \<Rightarrow> bool" where
  \<comment> \<open>\<open>if binsize:\<close> for a value that is None or an int\<close>
  "truthy v = (case v of None \<Rightarrow> False | Some k \<Rightarrow> k \<noteq> 0)"

definition py_slice :: "'a list \<Rightarrow> int \<Rightarrow> int option \<Rightarrow> 'a list" where
  \<comment> \<open>\<open>s[a:b]\<close> and \<open>s[a:]\<close> (stop None); a negative bound counts from the end, every
      bound is clamped to the length: a slice never raises IndexError\<close>
  "py_slice s a b =
     (let len = int (length s);
          clamp = (\<lambda>i. if i < 0 then max (len + i) 0 else min i len);
          start = clamp a;
          stop = (case b of None \<Rightarrow> len | Some j \<Rightarrow> clamp j)
      in drop (nat start) (take (nat stop) s))"

subsection \<open>Dictionaries\<close>

text \<open>
  A dict is an association list in insertion order with distinct keys. A tally is a
  \<open>defaultdict(int)\<close>, a cycle tally a \<open>defaultdict(lambda: defaultdict(int))\<close>:
  reading a missing key inserts the default.
\<close>

type_synonym 'k counter = "('k \<times> nat) list"
type_synonym 'k cycle_tally = "(int \<times> 'k counter) list"

definition get_or :: "'v \<Rightarrow> ('k \<times> 'v) list \<Rightarrow> 'k \<Rightarrow> 'v" where
  \<comment> \<open>the value \<open>m[k]\<close> evaluates to on a defaultdict with default \<open>d\<close>\<close>
  "get_or d m k = (case map_of m k of None \<Rightarrow> d | Some v \<Rightarrow> v)"

fun update_default :: "'v \<Rightarrow> ('v \<Rightarrow> 'v) \<Rightarrow> 'k \<Rightarrow> ('k \<times> 'v) list \<Rightarrow> ('k \<times> 'v) list" where
  \<comment> \<open>\<open>m[k] = f(m[k])\<close> on a defaultdict with default \<open>d\<close>: in place when the key is
      there, appended otherwise\<close>
  "update_default d f k [] = [(k, f d)]"
| "update_default d f k ((k', v) # m) =
     (if k = k' then (k', f v) # m else (k', v) # update_default d f k m)"

definition incr :: "'k \<Rightarrow> 'k counter \<Rightarrow> 'k counter" where
  \<comment> \<open>\<open>m[k] += 1\<close>\<close>
  "incr k m = update_default 0 Suc k m"

definition incr2 :: "int \<Rightarrow> 'k \<Rightarrow> 'k cycle_tally \<Rightarrow> 'k cycle_tally" where
  \<comment> \<open>\<open>t[p][s] += 1\<close>\<close>
  "incr2 p s t = update_default [] (incr s) p t"

definition touch :: "'v \<Rightarrow> 'k \<Rightarrow> ('k \<times> 'v) list \<Rightarrow> ('k \<times> 'v) list" where
  \<comment> \<open>what reading \<open>m[k]\<close> does to a defaultdict\<close>
  "touch d k m = update_default d (\<lambda>v. v) k m"

definition touch2 :: "int \<Rightarrow> 'k \<Rightarrow> 'k cycle_tally \<Rightarrow> 'k cycle_tally" where
  \<comment> \<open>what reading \<open>t[p][s]\<close> does to a cycle tally\<close>
  "touch2 p s t = update_default [] (touch 0 s) p t"

definition setitem :: "'k \<Rightarrow> 'v \<Rightarrow> ('k \<times> 'v) list \<Rightarrow> ('k \<times> 'v) list" where
  \<comment> \<open>\<open>m[k] = v\<close>\<close>
  "setitem k v m = update_default v (\<lambda>_. v) k m"

definition pop :: "'k \<Rightarrow> ('k \<times> 'v) list \<Rightarrow> error + ('v \<times> ('k \<times> 'v) list)" where
  \<comment> \<open>\<open>m.pop(k)\<close>\<close>
  "pop k m = (case map_of m k of
                None \<Rightarrow> Inl KeyError
              | Some v \<Rightarrow> Inr (v, filter (\<lambda>kv. fst kv \<noteq> k) m))"

definition count2 :: "'k cycle_tally \<Rightarrow> int \<Rightarrow> 'k \<Rightarrow> nat" where
  \<comment> \<open>the count of symbol \<open>s\<close> at cycle \<open>p\<close>, 0 where nothing was tallied\<close>
  "count2 t p s = get_or 0 (get_or [] t p) s"

definition total :: "'k cycle_tally \<Rightarrow> int \<Rightarrow> nat" where
  \<comment> \<open>\<open>sum(t[p].values())\<close>\<close>
  "total t p = sum_list (map snd (get_or [] t p))"

section \<open>Sampling estimator (cli.py, lines 111--125)\<close>

text \<open>
  Lines 47--110 leave \<open>est_nlines\<close> an int (FASTQ, SAM, BAM, gzip without \<open>-s\<close>) or None
  (gzip with \<open>-s\<close>, stdin); in the second case they have bound \<open>n\<close> already. The
  function takes \<open>est_nlines\<close> and that earlier binding of \<open>n\<close> (None: not bound) and
  returns the \<open>n\<close> that line 152 passes to the reader. A file name with another
  extension leaves \<open>est_nlines\<close> unbound; reading the input and estimating its size are
  the reader's part and are not modelled.
\<close>

definition empty_input_message :: string where
  "empty_input_message = ''The input file appears empty. Please check the file for data.''"

definition set_binsize :: "int option \<Rightarrow> int option \<Rightarrow> int \<Rightarrow> int option \<Rightarrow> error + int" where
  "set_binsize est_nlines binsize nreads n =
     (case est_nlines of
        Some est \<Rightarrow>
          if est = 0 then Inl (SystemExit empty_input_message)
          else if truthy binsize then Inr (the binsize)
          else if nreads = 0 then Inl ZeroDivisionError
          else (let nf = est div nreads in if nf \<ge> 1 then Inr nf else Inr 1)
      | None \<Rightarrow> (case n of Some k \<Rightarrow> Inr k | None \<Rightarrow> Inl UnboundLocalError))"

section \<open>Streaming aggregator (cli.py, lines 132--232)\<close>

text \<open>
  A read of the input stream: a FASTQ record, or a \<open>simplesam.Sam\<close> record with its
  \<open>mapped\<close> and \<open>reverse\<close> flags and the result of \<open>parse_md()\<close> (None: it raises
  KeyError, which line 221 catches).
\<close>

datatype read =
    FastqRead (seq: string) (qual: string)
  | Sam (seq: string) (qual: string) bool bool "string option"

text \<open>
  The keys of a quality tally: the quality symbol during the pass, the integer score
  after line 247 has replaced it.
\<close>

datatype qkey = Sym char | Score int

text \<open>
  The collaborators imported from the \<open>fastqp\<close> package and from \<open>pybloom\<close>, which
  cli.py calls and does not define, are parameters: \<open>gc\<close>, \<open>window\<close>, and the Bloom
  filter's membership test and insertion on a filter of type \<open>'b\<close>.
\<close>

record 'b deps =
  gc :: "string \<Rightarrow> int"
  window :: "string \<Rightarrow> int \<Rightarrow> string list"
  bloom_contains :: "'b \<Rightarrow> string \<Rightarrow> bool"
  bloom_add :: "'b \<Rightarrow> string \<Rightarrow> 'b"

text \<open>
  The options the loop reads. \<open>aligned_only\<close> and \<open>unaligned_only\<close> are the fields of
  the global \<open>args\<close> of lines 157 and 159, a name cli.py itself never binds: they are
  parameters here.
\<close>

record opts =
  aligned_only :: bool
  unaligned_only :: bool
  leftlimit :: int
  rightlimit :: int
  kmer :: int
  est_nlines :: "int option"

text \<open>
  The variables the loop updates. \<open>bloom_filter\<close> is bound (Some) exactly when
  \<open>count_duplicates\<close> is set (lines 142--148), so line 195 is the test for Some.
  \<open>cycle_mismatch\<close> is a plain dict with the four keys of lines 137--140.
\<close>

record 'b metrics =
  act_nlines :: int
  percent_complete :: int
  duplicates :: nat
  bloom_filter :: "'b option"
  read_len :: "nat counter"
  cycle_nuc :: "char cycle_tally"
  cycle_qual :: "qkey cycle_tally"
  cycle_gc :: "int counter"
  cycle_kmers :: "string cycle_tally"
  cycle_mismatch :: "(char \<times> char cycle_tally) list"

definition initial :: "'b option \<Rightarrow> 'b metrics" where
  "initial bf =
     \<lparr> act_nlines = 0, percent_complete = 10, duplicates = 0, bloom_filter = bf,
       read_len = [], cycle_nuc = [], cycle_qual = [], cycle_gc = [], cycle_kmers = [],
       cycle_mismatch = [(CHR ''C'', []), (CHR ''G'', []), (CHR ''A'', []), (CHR ''T'', [])] \<rparr>"

definition role_skipped :: "opts \<Rightarrow> read \<Rightarrow> bool" where
  \<comment> \<open>lines 155--160: the read leaves the loop body at one of the two \<open>continue\<close>\<close>
  "role_skipped opt r =
     (case r of
        FastqRead s q \<Rightarrow> False
      | Sam s q is_mapped is_reverse md \<Rightarrow>
          if aligned_only opt \<and> \<not> is_mapped then True
          else if unaligned_only opt \<and> is_mapped then True
          else False)"

definition oriented :: "read \<Rightarrow> string \<times> string" where
  \<comment> \<open>lines 161--169: \<open>seq\<close> and \<open>qual\<close>, reversed for a reverse-strand Sam read\<close>
  "oriented r =
     (case r of
        FastqRead s q \<Rightarrow> (s, q)
      | Sam s q is_mapped is_reverse md \<Rightarrow> if is_reverse then (rev s, rev q) else (s, q))"

definition apply_limits :: "int \<Rightarrow> int \<Rightarrow> 'a list \<Rightarrow> 'a list" where
  \<comment> \<open>lines 173--189 on one of \<open>seq\<close>, \<open>qual\<close>; a str slice raises no IndexError, so the
      two handlers never run\<close>
  "apply_limits ll rl s =
     (if ll = 1 \<and> rl < 0 then s
      else if ll \<ge> 1 \<and> rl > 0 then py_slice s (ll - 1) (Some rl)
      else if ll > 1 \<and> rl < 0 then py_slice s (ll - 1) None
      else s)"

definition trimmed :: "opts \<Rightarrow> read \<Rightarrow> string \<times> string" where
  "trimmed opt r =
     (apply_limits (leftlimit opt) (rightlimit opt) (fst (oriented r)),
      apply_limits (leftlimit opt) (rightlimit opt) (snd (oriented r)))"

definition tally_bases ::
  "int \<Rightarrow> string \<Rightarrow> string \<Rightarrow> char cycle_tally \<times> qkey cycle_tally
     \<Rightarrow> char cycle_tally \<times> qkey cycle_tally" where
  \<comment> \<open>lines 201--203\<close>
  "tally_bases ll sq ql =
     fold (\<lambda>(i, (s, q)) (cn, cq). (incr2 (ll + int i) s cn, incr2 (ll + int i) (Sym q) cq))
          (enumerate 0 (zip sq ql))"

definition tally_kmers :: "int \<Rightarrow> string list \<Rightarrow> string cycle_tally \<Rightarrow> string cycle_tally" where
  \<comment> \<open>lines 209--210\<close>
  "tally_kmers ll ws = fold (\<lambda>(i, k_mer). incr2 (ll + int i) k_mer) (enumerate 0 ws)"

definition tally_mismatch ::
  "int \<Rightarrow> string \<Rightarrow> string \<Rightarrow> (char \<times> char cycle_tally) list \<Rightarrow> (char \<times> char cycle_tally) list" where
  \<comment> \<open>lines 215--220: a reference base that is no key of \<open>cycle_mismatch\<close> raises
      KeyError, caught at line 219\<close>
  "tally_mismatch ll sq ref =
     fold (\<lambda>(i, (s, r)) mm.
             if s \<noteq> r
             then (case map_of mm r of
                     None \<Rightarrow> mm
                   | Some t \<Rightarrow> update_default [] (incr2 (ll + int i) s) r mm)
             else mm)
          (enumerate 0 (zip sq ref))"

definition progress :: "int option \<Rightarrow> int \<Rightarrow> int \<Rightarrow> int" where
  \<comment> \<open>lines 224--231: the next value of \<open>percent_complete\<close> (the notice itself goes to
      stderr); line 111 has excluded \<open>est_nlines = 0\<close>\<close>
  "progress est act pc =
     (case est of
        None \<Rightarrow> pc
      | Some e \<Rightarrow> if real_of_int act / real_of_int e * 100 \<ge> real_of_int pc then pc + 10 else pc)"

definition tally_read :: "'b deps \<Rightarrow> opts \<Rightarrow> int \<Rightarrow> read \<Rightarrow> string \<Rightarrow> string \<Rightarrow> 'b metrics \<Rightarrow> 'b metrics" where
  \<comment> \<open>lines 193--232, for a read whose trimmed \<open>seq\<close> is not empty\<close>
  "tally_read dp opt n r sq ql st =
     (let ll = leftlimit opt;
          (dups, bf) =
            (case bloom_filter st of
               None \<Rightarrow> (duplicates st, None)
             | Some b \<Rightarrow>
                 if bloom_contains dp b sq then (duplicates st + 1, Some b)
                 else (duplicates st, Some (bloom_add dp b sq)));
          (cn, cq) = tally_bases ll sq ql (cycle_nuc st, cycle_qual st);
          mm = (case r of
                  Sam s q is_mapped is_reverse md \<Rightarrow>
                    (if is_mapped
                     then (case md of
                             None \<Rightarrow> cycle_mismatch st
                           | Some ref \<Rightarrow> tally_mismatch ll sq ref (cycle_mismatch st))
                     else cycle_mismatch st)
                | FastqRead s q \<Rightarrow> cycle_mismatch st)
      in st\<lparr> cycle_gc := incr (gc dp sq) (cycle_gc st),
             duplicates := dups,
             bloom_filter := bf,
             cycle_nuc := cn,
             cycle_qual := cq,
             read_len := incr (length ql) (read_len st),
             cycle_kmers := tally_kmers ll (window dp sq (kmer opt)) (cycle_kmers st),
             cycle_mismatch := mm,
             percent_complete := progress (est_nlines opt) (act_nlines st) (percent_complete st),
             act_nlines := act_nlines st + n \<rparr>)"

definition process_read :: "'b deps \<Rightarrow> opts \<Rightarrow> int \<Rightarrow> read \<Rightarrow> 'b metrics \<Rightarrow> 'b metrics" where
  \<comment> \<open>one iteration of the loop of line 154\<close>
  "process_read dp opt n r st =
     (if role_skipped opt r then st
      else (let (sq, ql) = trimmed opt r
            in if length sq = 0 then st\<lparr> act_nlines := act_nlines st + n \<rparr>
               else tally_read dp opt n r sq ql st))"

definition streaming_pass :: "'b deps \<Rightarrow> opts \<Rightarrow> int \<Rightarrow> read list \<Rightarrow> 'b metrics \<Rightarrow> 'b metrics" where
  \<comment> \<open>the loop over \<open>infile.subsample(n)\<close>: \<open>reads\<close> is the sampled stream\<close>
  "streaming_pass dp opt n reads st = fold (process_read dp opt n) reads st"

section \<open>Derived statistics (cli.py, lines 234--285 and 333)\<close>

text \<open>
  \<open>percentile\<close> and \<open>get_median_qual\<close> (package \<open>fastqp\<close>) and \<open>stats.linregress\<close>
  (scipy) are parameters; \<open>linregress\<close> returns the slope and the two-sided p-value, or
  raises. Line 240 builds a lazy \<open>map\<close> object that nothing consumes, so \<open>padbases\<close>
  never runs.
\<close>

record stat_deps =
  percentile :: "qkey counter \<Rightarrow> real \<Rightarrow> real"
  linregress :: "int list \<Rightarrow> nat list \<Rightarrow> error + real \<times> real"
  get_median_qual :: "qkey counter list \<Rightarrow> real"

definition positions_of :: "'k cycle_tally \<Rightarrow> int list" where
  \<comment> \<open>\<open>sorted(t.keys())\<close>\<close>
  "positions_of t = sort (map fst t)"

definition quantile_values :: "real list" where
  "quantile_values = [5 / 100, 25 / 100, 5 / 10, 75 / 100, 95 / 100]"

fun ord_str :: "qkey \<Rightarrow> error + int" where
  \<comment> \<open>\<open>ord(str(q))\<close>: the code point of a one-character string; the decimal string
      of an int has one character for 0..9 only, and \<open>ord\<close> raises TypeError otherwise\<close>
  "ord_str (Sym c) = Inr (of_char c)"
| "ord_str (Score k) = (if 0 \<le> k \<and> k \<le> 9 then Inr (48 + k) else Inl TypeError)"

definition rekey_one :: "qkey \<Rightarrow> qkey counter \<Rightarrow> error + qkey counter" where
  \<comment> \<open>line 247: \<open>v[ord(str(q)) - 33] = v.pop(q)\<close>; the right-hand side is evaluated first\<close>
  "rekey_one q v =
     (case pop q v of
        Inl e \<Rightarrow> Inl e
      | Inr (x, v') \<Rightarrow>
          (case ord_str q of
             Inl e \<Rightarrow> Inl e
           | Inr code \<Rightarrow> Inr (setitem (Score (code - 33)) x v')))"

fun rekey_keys :: "qkey list \<Rightarrow> qkey counter \<Rightarrow> error + qkey counter" where
  "rekey_keys [] v = Inr v"
| "rekey_keys (q # qs) v =
     (case rekey_one q v of Inl e \<Rightarrow> Inl e | Inr v' \<Rightarrow> rekey_keys qs v')"

definition rekey :: "qkey counter \<Rightarrow> error + qkey counter" where
  \<comment> \<open>lines 246--247: the loop over the snapshot \<open>tuple(v.keys())\<close>\<close>
  "rekey v = rekey_keys (map fst v) v"

fun quantile_loop ::
  "(qkey counter \<Rightarrow> real \<Rightarrow> real) \<Rightarrow> int list \<Rightarrow> qkey cycle_tally
     \<Rightarrow> error + (real list list \<times> qkey cycle_tally)" where
  \<comment> \<open>lines 245--249, over the positions in ascending order; \<open>v\<close> is the dict stored in
      \<open>cycle_qual\<close>, changed in place\<close>
  "quantile_loop pct [] cq = Inr ([], cq)"
| "quantile_loop pct (p # ps) cq =
     (case rekey (get_or [] cq p) of
        Inl e \<Rightarrow> Inl e
      | Inr v \<Rightarrow>
          (case quantile_loop pct ps (setitem p v cq) of
             Inl e \<Rightarrow> Inl e
           | Inr (lines, cq') \<Rightarrow> Inr (map (pct v) quantile_values # lines, cq')))"

definition kmers_of :: "string cycle_tally \<Rightarrow> string list" where
  \<comment> \<open>lines 259--260: the set of the kmers seen. Python iterates a set in an order of its
      own; this is the order of first occurrence, and \<open>kmer_loop\<close> below takes any order\<close>
  "kmers_of t = remdups (concat (map (\<lambda>p. map fst (get_or [] t p)) (positions_of t)))"

definition sequenced_bases :: "nat counter \<Rightarrow> nat" where
  \<comment> \<open>line 262\<close>
  "sequenced_bases rl = sum_list (map (\<lambda>(l, c). l * c) rl)"

fun kmer_counts :: "string \<Rightarrow> int list \<Rightarrow> string cycle_tally \<Rightarrow> (int \<times> nat) list \<times> string cycle_tally" where
  \<comment> \<open>lines 265--266: each read of \<open>cycle_kmers[i][k_mer]\<close> inserts a missing kmer with
      count 0\<close>
  "kmer_counts k_mer [] t = ([], t)"
| "kmer_counts k_mer (i # ps) t =
     (let (cs, t') = kmer_counts k_mer ps (touch2 i k_mer t)
      in ((i, count2 t i k_mer) # cs, t'))"

definition expected_fraction :: "real list \<Rightarrow> string \<Rightarrow> real" where
  \<comment> \<open>lines 267--268\<close>
  "expected_fraction priors k_mer =
     fold (\<lambda>x acc. acc * x) (map (\<lambda>(b, p). p ^ count_list k_mer b) (zip ''ATCGN'' priors)) 1"

type_synonym kmer_acc = "(string \<times> real) list \<times> (string \<times> real \<times> real) list \<times> string cycle_tally"

definition kmer_step :: "stat_deps \<Rightarrow> real list \<Rightarrow> nat \<Rightarrow> string \<Rightarrow> kmer_acc \<Rightarrow> error + kmer_acc" where
  \<comment> \<open>lines 265--273 for one kmer; \<open>linregress(*zip(*kmer_counts))\<close> has no argument
      when there is no position\<close>
  "kmer_step sd priors total_bases k_mer acc =
     (case acc of (observed_expected, bad_kmers, t) \<Rightarrow>
        (let (counts, t') = kmer_counts k_mer (positions_of t) t;
             expected = expected_fraction priors k_mer * real total_bases
         in if expected = 0 then Inl ZeroDivisionError
            else if counts = [] then Inl TypeError
            else (case linregress sd (map fst counts) (map snd counts) of
                    Inl e \<Rightarrow> Inl e
                  | Inr (slope, p_value) \<Rightarrow>
                      Inr (setitem k_mer (real (sum_list (map snd counts)) / expected) observed_expected,
                           (if \<bar>slope\<bar> > 2 \<and> p_value < 5 / 100
                            then bad_kmers @ [(k_mer, slope, p_value)] else bad_kmers),
                           t'))))"

fun kmer_loop :: "stat_deps \<Rightarrow> real list \<Rightarrow> nat \<Rightarrow> string list \<Rightarrow> kmer_acc \<Rightarrow> error + kmer_acc" where
  \<comment> \<open>the loop of line 264 over the kmers in the order \<open>ks\<close>\<close>
  "kmer_loop sd priors total_bases [] acc = Inr acc"
| "kmer_loop sd priors total_bases (k_mer # ks) acc =
     (case kmer_step sd priors total_bases k_mer acc of
        Inl e \<Rightarrow> Inl e
      | Inr acc' \<Rightarrow> kmer_loop sd priors total_bases ks acc')"

definition p_value_of :: "string \<times> real \<times> real \<Rightarrow> real" where
  "p_value_of x = snd (snd x)"

definition most_significant :: "(string \<times> real \<times> real) list \<Rightarrow> (string \<times> real \<times> real) list" where
  \<comment> \<open>line 274: \<open>sorted(bad_kmers, key=lambda x: x[2])[:10]\<close>, a stable sort\<close>
  "most_significant bad = take 10 (sort_key p_value_of bad)"

definition gc_percent :: "nat \<Rightarrow> nat \<Rightarrow> nat \<Rightarrow> nat \<Rightarrow> real" where
  \<comment> \<open>lines 278--284: int / int is a float; a zero denominator raises
      ZeroDivisionError, caught at line 283\<close>
  "gc_percent c g a t =
     (if c + g + a + t = 0 then 0 else real (c + g) / real (c + g + a + t) * 100)"

fun pos_gc_loop :: "int list \<Rightarrow> char cycle_tally \<Rightarrow> real list \<times> char cycle_tally" where
  \<comment> \<open>lines 277--285: the reads of \<open>cycle_nuc[i][b]\<close> insert missing entries, in the
      order C, G, A, T\<close>
  "pos_gc_loop [] cn = ([], cn)"
| "pos_gc_loop (i # ps) cn =
     (let pg = gc_percent (count2 cn i CHR ''C'') (count2 cn i CHR ''G'')
                          (count2 cn i CHR ''A'') (count2 cn i CHR ''T'');
          cn' = touch2 i CHR ''T'' (touch2 i CHR ''A'' (touch2 i CHR ''G'' (touch2 i CHR ''C'' cn)));
          (pgs, cn'') = pos_gc_loop ps cn'
      in (pg # pgs, cn''))"

definition bases_of :: "char cycle_tally \<Rightarrow> char list" where
  \<comment> \<open>lines 237--238: the set of the symbols seen, in the order of first occurrence (see
      \<open>kmers_of\<close>)\<close>
  "bases_of t = remdups (concat (map (\<lambda>p. map fst (get_or [] t p)) (positions_of t)))"

record derived =
  positions :: "int list"
  quantiles :: "real list list"
  observed_expected :: "(string \<times> real) list"
  bad_kmers :: "(string \<times> real \<times> real) list"
  pos_gc :: "real list"
  median_qual :: real
  bases :: "char list"

definition derived_statistics ::
  "stat_deps \<Rightarrow> real list \<Rightarrow> string list \<Rightarrow> 'b metrics \<Rightarrow> error + ('b metrics \<times> derived)" where
  \<comment> \<open>lines 234--285 and 333; \<open>ks\<close> is the order in which line 264 iterates the set
      \<open>kmers\<close>\<close>
  "derived_statistics sd priors ks st =
     (let ps = positions_of (cycle_qual st)
      in case quantile_loop (percentile sd) ps (cycle_qual st) of
           Inl e \<Rightarrow> Inl e
         | Inr (qs, cq) \<Rightarrow>
             (case kmer_loop sd priors (sequenced_bases (read_len st)) ks ([], [], cycle_kmers st) of
                Inl e \<Rightarrow> Inl e
              | Inr (oe, bad, ck) \<Rightarrow>
                  (let (pgs, cn) = pos_gc_loop ps (cycle_nuc st)
                   in Inr (st\<lparr> cycle_qual := cq, cycle_kmers := ck, cycle_nuc := cn \<rparr>,
                           \<lparr> positions = ps, quantiles = qs, observed_expected = oe,
                             bad_kmers = most_significant bad, pos_gc = pgs,
                             median_qual = get_median_qual sd (map snd cq),
                             bases = bases_of (cycle_nuc st) \<rparr>))))"

section \<open>The whole function up to the report\<close>

definition pybloom_message :: string where
  "pybloom_message =
     ''--count-duplicates option requires '' @ [CHR 0x27] @ ''pybloom'' @ [CHR 0x27]
       @ '' package.'' @ [CHR 0x0A]"

definition bloom_setup :: "bool \<Rightarrow> 'b option \<Rightarrow> error + 'b option" where
  \<comment> \<open>lines 142--148; \<open>pybloom\<close> is the fresh filter, None when the import fails\<close>
  "bloom_setup count_duplicates pybloom =
     (if count_duplicates
      then (case pybloom of None \<Rightarrow> Inl (SystemExit pybloom_message) | Some b \<Rightarrow> Inr (Some b))
      else Inr None)"

definition get_metrics ::
  "'b deps \<Rightarrow> stat_deps \<Rightarrow> opts \<Rightarrow> int option \<Rightarrow> int \<Rightarrow> int option \<Rightarrow> bool \<Rightarrow> 'b option
     \<Rightarrow> real list \<Rightarrow> (int \<Rightarrow> read list) \<Rightarrow> error + ('b metrics \<times> derived)" where
  \<comment> \<open>lines 111--285: the error raised before the report, or the tallies and the derived
      values with which line 288 is reached. \<open>subsample k\<close> is the stream the reader yields
      for stride \<open>k\<close>; \<open>n0\<close> is the binding of \<open>n\<close> made before line 111, if any\<close>
  "get_metrics dp sd opt binsize nreads n0 count_duplicates pybloom priors subsample =
     (case set_binsize (est_nlines opt) binsize nreads n0 of
        Inl e \<Rightarrow> Inl e
      | Inr n \<Rightarrow>
          (case bloom_setup count_duplicates pybloom of
             Inl e \<Rightarrow> Inl e
           | Inr bf \<Rightarrow>
               (let st = streaming_pass dp opt n (subsample n) (initial bf)
                in derived_statistics sd priors (kmers_of (cycle_kmers st)) st)))"

section \<open>Report (cli.py, lines 288--331)\<close>

text \<open>
  A row is what one \<open>text.write\<close> is given: sample name, column, position (None for the
  string \<open>'None'\<close>) and value; the number format \<open>n\<close> is not modelled. An exception ends the
  report; the rows already written are not kept in the result. \<open>sample_name\<close> is the
  part of the file name before the first dot.
\<close>

type_synonym row = "string \<times> string \<times> int option \<times> real"

definition py_index :: "'a list \<Rightarrow> int \<Rightarrow> error + 'a" where
  \<comment> \<open>\<open>xs[i]\<close> on a list\<close>
  "py_index xs i =
     (if 0 \<le> i \<and> i < int (length xs) then Inr (xs ! nat i)
      else if i < 0 \<and> - int (length xs) \<le> i then Inr (xs ! nat (int (length xs) + i))
      else Inl IndexError)"

fun map_err :: "('a \<Rightarrow> error + 'b) \<Rightarrow> 'a list \<Rightarrow> error + 'b list" where
  \<comment> \<open>a loop that produces one result per element and ends at the first exception\<close>
  "map_err f [] = Inr []"
| "map_err f (x # xs) =
     (case f x of
        Inl e \<Rightarrow> Inl e
      | Inr y \<Rightarrow> (case map_err f xs of Inl e \<Rightarrow> Inl e | Inr ys \<Rightarrow> Inr (y # ys)))"

definition quantile_rows :: "string \<Rightarrow> real list list \<Rightarrow> nat \<times> int \<Rightarrow> error + row list" where
  \<comment> \<open>lines 296--310 for one position\<close>
  "quantile_rows sample_name qs ip =
     (case ip of (i, position) \<Rightarrow>
        map_err (\<lambda>(column, k).
                   case py_index qs (int i) of
                     Inl e \<Rightarrow> Inl e
                   | Inr line \<Rightarrow>
                       (case py_index line k of
                          Inl e \<Rightarrow> Inl e
                        | Inr v \<Rightarrow> Inr (sample_name, column, Some position, v)))
          [(''q05'', 0), (''q25'', 1), (''q50'', 2), (''q75'', 3), (''q95'', 4)])"

fun nuc_rows :: "string \<Rightarrow> char \<Rightarrow> int list \<Rightarrow> char cycle_tally \<Rightarrow> row list \<times> char cycle_tally" where
  \<comment> \<open>lines 312--315 for one base; the read of \<open>cycle_nuc[position][base]\<close> inserts a
      missing entry\<close>
  "nuc_rows sample_name base [] cn = ([], cn)"
| "nuc_rows sample_name base (position # ps) cn =
     (let (rs, cn') = nuc_rows sample_name base ps (touch2 position base cn)
      in ((sample_name, [base], Some position, real (count2 cn position base)) # rs, cn'))"

fun base_rows :: "string \<Rightarrow> char list \<Rightarrow> int list \<Rightarrow> char cycle_tally \<Rightarrow> row list \<times> char cycle_tally" where
  \<comment> \<open>lines 311--315\<close>
  "base_rows sample_name [] ps cn = ([], cn)"
| "base_rows sample_name (base # bs) ps cn =
     (let (rs, cn') = nuc_rows sample_name base ps cn;
          (rs', cn'') = base_rows sample_name bs ps cn'
      in (rs @ rs', cn''))"

fun read_gc_rows :: "string \<Rightarrow> int list \<Rightarrow> int counter \<Rightarrow> row list \<times> int counter" where
  \<comment> \<open>lines 320--323; the read of \<open>cycle_gc[i]\<close> inserts a missing entry\<close>
  "read_gc_rows sample_name [] cg = ([], cg)"
| "read_gc_rows sample_name (i # js) cg =
     (let (rs, cg') = read_gc_rows sample_name js (touch 0 i cg)
      in ((sample_name, ''read_gc'', Some i, real (get_or 0 cg i)) # rs, cg'))"

definition duplicate_row :: "string \<Rightarrow> bool \<Rightarrow> 'b metrics \<Rightarrow> error + row list" where
  \<comment> \<open>lines 329--331\<close>
  "duplicate_row sample_name count_duplicates st =
     (if count_duplicates
      then (if act_nlines st = 0 then Inl ZeroDivisionError
            else Inr [(sample_name, ''duplicate'', None,
                       real (duplicates st) / real_of_int (act_nlines st))])
      else Inr [])"

definition tidy_text ::
  "string \<Rightarrow> bool \<Rightarrow> 'b metrics \<Rightarrow> derived \<Rightarrow> error + (row list \<times> 'b metrics)" where
  \<comment> \<open>lines 288--331: the rows in the order they are written, and the tallies after the
      reads of lines 315 and 323\<close>
  "tidy_text sample_name count_duplicates st d =
     (case map_err (quantile_rows sample_name (quantiles d)) (enumerate 0 (positions d)) of
        Inl e \<Rightarrow> Inl e
      | Inr quantile_lines \<Rightarrow>
          (let (nucs, cn) = base_rows sample_name (bases d) (positions d) (cycle_nuc st)
           in case map_err (\<lambda>position.
                              case py_index (pos_gc d) (position - 1) of
                                Inl e \<Rightarrow> Inl e
                              | Inr v \<Rightarrow> Inr (sample_name, ''pos_gc'', Some position, v))
                     (positions d) of
                Inl e \<Rightarrow> Inl e
              | Inr pos_gcs \<Rightarrow>
                  (let (read_gcs, cg) = read_gc_rows sample_name (map int [0 ..< 101]) (cycle_gc st)
                   in case duplicate_row sample_name count_duplicates st of
                        Inl e \<Rightarrow> Inl e
                      | Inr dups \<Rightarrow>
                          Inr ([(sample_name, ''reads'', None, real_of_int (act_nlines st))]
                               @ map (\<lambda>(cycle, count). (sample_name, ''read_len'', Some (int cycle), real count))
                                   (read_len st)
                               @ concat quantile_lines
                               @ nucs
                               @ pos_gcs
                               @ read_gcs
                               @ map (\<lambda>(k_mer, obs_exp). (sample_name, k_mer, None, obs_exp))
                                   (sort_key snd (observed_expected d))
                               @ dups,
                               st\<lparr> cycle_nuc := cn, cycle_gc := cg \<rparr>))))"

definition get_metrics_text ::
  "string \<Rightarrow> 'b deps \<Rightarrow> stat_deps \<Rightarrow> opts \<Rightarrow> int option \<Rightarrow> int \<Rightarrow> int option \<Rightarrow> bool
     \<Rightarrow> 'b option \<Rightarrow> real list \<Rightarrow> (int \<Rightarrow> read list)
     \<Rightarrow> error + (row list \<times> 'b metrics \<times> derived)" where
  \<comment> \<open>lines 111--331: \<open>get_metrics\<close> followed by the report\<close>
  "get_metrics_text sample_name dp sd opt binsize nreads n0 count_duplicates pybloom priors
       subsample =
     (case get_metrics dp sd opt binsize nreads n0 count_duplicates pybloom priors subsample of
        Inl e \<Rightarrow> Inl e
      | Inr (st, d) \<Rightarrow>
          (case tidy_text sample_name count_duplicates st d of
             Inl e \<Rightarrow> Inl e
           | Inr (rows, st') \<Rightarrow> Inr (rows, st', d)))"

section \<open>The properties, in the words of the specification\<close>

text \<open>
  The notions the claims are stated with. The last ones, from \<open>same_counts\<close> on, describe
  the tallies before and after the derived statistics and under a shifted window.
\<close>

definition in_window :: "int \<Rightarrow> int \<Rightarrow> int \<Rightarrow> bool" where
  \<comment> \<open>cycle \<open>p\<close> lies in the window \<open>[ll, rl]\<close>, 1-based and inclusive; \<open>rl < 0\<close> is
      "to the end"\<close>
  "in_window ll rl p = (ll \<le> p \<and> (rl < 0 \<or> p \<le> rl))"

definition window_outside :: "int \<Rightarrow> int \<Rightarrow> nat \<Rightarrow> bool" where
  \<comment> \<open>the window holds none of the cycles \<open>1..len\<close> of a read of length \<open>len\<close>\<close>
  "window_outside ll rl len = (\<forall>p \<in> {1 .. int len}. \<not> in_window ll rl p)"

definition retained :: "opts \<Rightarrow> read \<Rightarrow> bool" where
  \<comment> \<open>the read passes the role filters and is not empty after trimming\<close>
  "retained opt r = (\<not> role_skipped opt r \<and> fst (trimmed opt r) \<noteq> [])"

definition covers :: "opts \<Rightarrow> read \<Rightarrow> int \<Rightarrow> bool" where
  \<comment> \<open>cycle \<open>p\<close>, counted from 1 along the read, is one of the read's cycles and lies in
      the configured window\<close>
  "covers opt r p =
     (1 \<le> p \<and> p \<le> int (length (seq r)) \<and> in_window (leftlimit opt) (rightlimit opt) p)"

definition cycles :: "opts \<Rightarrow> read \<Rightarrow> nat" where
  \<comment> \<open>how many (base, quality) pairs line 201 visits for the read\<close>
  "cycles opt r = length (zip (fst (trimmed opt r)) (snd (trimmed opt r)))"


definition same_counts :: "'k cycle_tally \<Rightarrow> 'k cycle_tally \<Rightarrow> bool" where
  \<comment> \<open>the same positions in the same order, and the same count of every symbol at every
      position (zero-count entries apart)\<close>
  "same_counts t t' = (map fst t' = map fst t \<and> (\<forall>p s. count2 t' p s = count2 t p s))"

definition kmer_regression :: "stat_deps \<Rightarrow> string cycle_tally \<Rightarrow> string \<Rightarrow> error + real \<times> real" where
  \<comment> \<open>the regression of the per-position counts of a kmer against position, as line 271
      asks \<open>linregress\<close> for it\<close>
  "kmer_regression sd t k_mer =
     linregress sd (positions_of t) (map (\<lambda>i. count2 t i k_mer) (positions_of t))"

definition flagged :: "stat_deps \<Rightarrow> string cycle_tally \<Rightarrow> string \<Rightarrow> (string \<times> real \<times> real) list" where
  \<comment> \<open>the entry of a kmer in the flagged list, if it has one\<close>
  "flagged sd t k_mer =
     (case kmer_regression sd t k_mer of
        Inl e \<Rightarrow> []
      | Inr (slope, p_value) \<Rightarrow>
          if \<bar>slope\<bar> > 2 \<and> p_value < 5 / 100 then [(k_mer, slope, p_value)] else [])"

definition sym_counter :: "char counter \<Rightarrow> qkey counter" where
  \<comment> \<open>a quality tally of one position as the pass builds it, keyed by quality symbol\<close>
  "sym_counter v = map (\<lambda>(c, k). (Sym c, k)) v"

definition score_counter :: "char counter \<Rightarrow> qkey counter" where
  \<comment> \<open>the same tally keyed by \<open>ord(q) - 33\<close>, in the same order with the same counts\<close>
  "score_counter v = map (\<lambda>(c, k). (Score (of_char c - 33), k)) v"

definition as_symbols :: "char cycle_tally \<Rightarrow> qkey cycle_tally" where
  "as_symbols cs = map (\<lambda>(p, v). (p, sym_counter v)) cs"

definition as_scores :: "char cycle_tally \<Rightarrow> qkey cycle_tally" where
  "as_scores cs = map (\<lambda>(p, v). (p, score_counter v)) cs"

definition distinct_keys :: "'k cycle_tally \<Rightarrow> bool" where
  \<comment> \<open>no position and, within a position, no symbol occurs twice as a key\<close>
  "distinct_keys t = (distinct (map fst t) \<and> list_all (\<lambda>pv. distinct (map fst (snd pv))) t)"

definition symbol_keyed :: "qkey cycle_tally \<Rightarrow> bool" where
  \<comment> \<open>what the pass keeps true of \<open>cycle_qual\<close>\<close>
  "symbol_keyed cq = (\<exists>cs. cq = as_symbols cs \<and> distinct_keys cs)"

definition mixed :: "int set \<Rightarrow> char cycle_tally \<Rightarrow> qkey cycle_tally" where
  \<comment> \<open>\<open>cycle_qual\<close> during the loop of line 245: the positions in \<open>D\<close> are re-keyed\<close>
  "mixed D cs = map (\<lambda>(p, v). (p, if p \<in> D then score_counter v else sym_counter v)) cs"

definition relabel :: "int \<Rightarrow> 'k cycle_tally \<Rightarrow> 'k cycle_tally" where
  \<comment> \<open>the tally with every cycle position moved by \<open>d\<close>\<close>
  "relabel d t = map (\<lambda>(p, c). (p + d, c)) t"

definition relabel_metrics :: "int \<Rightarrow> 'b metrics \<Rightarrow> 'b metrics" where
  \<comment> \<open>the four cycle tallies with every position moved by \<open>d\<close>, all else as it is\<close>
  "relabel_metrics d st =
     st\<lparr> cycle_nuc := relabel d (cycle_nuc st),
         cycle_qual := relabel d (cycle_qual st),
         cycle_kmers := relabel d (cycle_kmers st),
         cycle_mismatch := map (\<lambda>(b, t). (b, relabel d t)) (cycle_mismatch st) \<rparr>"

section \<open>Sample collaborators, options and runs\<close>

definition spec_gc :: "string \<Rightarrow> int" where
  \<comment> \<open>Modelled from the spec: \<open>gc\<close> of the package \<open>fastqp\<close> is not in cli.py; the
      integer GC percentage of a non-empty sequence, the count of G and C over its length\<close>
  "spec_gc s = int (100 * length (filter (\<lambda>c. c = CHR ''G'' \<or> c = CHR ''C'') s) div length s)"

definition spec_window :: "string \<Rightarrow> int \<Rightarrow> string list" where
  \<comment> \<open>Modelled from the spec: \<open>window\<close> of the package \<open>fastqp\<close> is not in cli.py; the
      contiguous kmers of length \<open>k\<close>, by starting position\<close>
  "spec_window s k = map (\<lambda>i. take (nat k) (drop i s)) [0 ..< length s + 1 - nat k]"

definition exact_deps :: "string list deps" where
  \<comment> \<open>Modelled from the spec: the duplicate set as an exact set, the list of the
      sequences inserted (no false positive, no false negative)\<close>
  "exact_deps =
     \<lparr> gc = spec_gc, window = spec_window,
       bloom_contains = (\<lambda>b s. s \<in> set b), bloom_add = (\<lambda>b s. s # b) \<rparr>"

definition default_nreads :: int where
  "default_nreads = 2000000"

definition default_opts :: "int option \<Rightarrow> opts" where
  \<comment> \<open>the defaults of line 29--31 and of the two flags of lines 404--407\<close>
  "default_opts est =
     \<lparr> aligned_only = False, unaligned_only = False, leftlimit = 1, rightlimit = - 1,
       kmer = 5, est_nlines = est \<rparr>"

definition trivial_stats :: stat_deps where
  \<comment> \<open>statistics collaborators that answer a constant, for running examples\<close>
  "trivial_stats =
     \<lparr> percentile = (\<lambda>v p. 0), linregress = (\<lambda>xs ys. Inr (0, 1)),
       get_median_qual = (\<lambda>vs. 0) \<rparr>"

definition demo_run :: "error + (string list metrics \<times> derived)" where
  \<comment> \<open>a run with \<open>-s 2 -d -k 1\<close> on a stream of two equal reads\<close>
  "demo_run =
     get_metrics exact_deps trivial_stats ((default_opts (Some 2))\<lparr>kmer := 1\<rparr>) (Some 2)
       default_nreads None True (Some []) [1 / 4, 1 / 4, 1 / 4, 1 / 4, 1 / 10]
       (\<lambda>k. [FastqRead ''AC'' ''II'', FastqRead ''AC'' ''II''])"





definition demo_pass :: "string list metrics" where
  \<comment> \<open>the streaming pass of \<open>demo_run\<close>\<close>
  "demo_pass =
     streaming_pass exact_deps ((default_opts (Some 2))\<lparr>kmer := 1\<rparr>) 2
       [FastqRead ''AC'' ''II'', FastqRead ''AC'' ''II''] (initial (Some []))"


definition late_window_report :: "error + (row list \<times> string list metrics \<times> derived)" where
  \<comment> \<open>a run with \<open>-l 2 -s 1 -d -k 1\<close> on two reads of length 3\<close>
  "late_window_report =
     get_metrics_text ''sample'' exact_deps trivial_stats
       ((default_opts (Some 2))\<lparr>kmer := 1, leftlimit := 2\<rparr>)
       (Some 1) default_nreads None True (Some []) [1 / 4, 1 / 4, 1 / 4, 1 / 4, 1 / 10]
       (\<lambda>k. [FastqRead ''ACG'' ''III'', FastqRead ''ACG'' ''III''])"

section \<open>Lemmas\<close>

subsection \<open>Dictionaries\<close>

lemma get_or_Nil: "get_or d [] k = d"
  by (simp add: get_or_def)

lemma map_of_update_default:
  "map_of (update_default d f k m) = (map_of m)(k \<mapsto> f (get_or d m k))"
  by (induction m) (auto simp: get_or_def)

lemma get_or_update_default:
  "get_or d' (update_default d f k m) k' = (if k' = k then f (get_or d m k) else get_or d' m k')"
  by (simp add: get_or_def map_of_update_default)

lemma keys_update_default:
  "map fst (update_default d f k m) = (if k \<in> fst ` set m then map fst m else map fst m @ [k])"
  by (induction m) force+

lemma sum_incr: "sum_list (map snd (incr k m)) = Suc (sum_list (map snd m))"
  unfolding incr_def by (induction m) auto

lemma total_incr2: "total (incr2 p s t) p' = (if p' = p then Suc (total t p') else total t p')"
  by (simp add: total_def incr2_def get_or_update_default sum_incr get_or_Nil)

subsection \<open>Totals per cycle after the pass\<close>

lemma tally_bases_total:
  "fold (\<lambda>(i, (s, q)) (cn, cq). (incr2 (ll + int i) s cn, incr2 (ll + int i) (Sym q) cq))
        (enumerate j xs) (cn, cq) = (cn', cq') \<Longrightarrow>
   total cn' p = total cn p + (if ll + int j \<le> p \<and> p < ll + int j + int (length xs) then 1 else 0)
   \<and> total cq' p = total cq p + (if ll + int j \<le> p \<and> p < ll + int j + int (length xs) then 1 else 0)"
proof (induction xs arbitrary: j cn cq)
  case Nil
  then show ?case by simp
next
  case (Cons x xs)
  obtain s q where x: "x = (s, q)" by (cases x)
  from Cons.prems have
    "fold (\<lambda>(i, (s, q)) (cn, cq). (incr2 (ll + int i) s cn, incr2 (ll + int i) (Sym q) cq))
        (enumerate (Suc j) xs) (incr2 (ll + int j) s cn, incr2 (ll + int j) (Sym q) cq) = (cn', cq')"
    by (simp add: x)
  from Cons.IH[OF this] show ?case
    by (auto simp: total_incr2)
qed

lemma length_apply_limits_cong:
  "length s = length s' \<Longrightarrow> length (apply_limits ll rl s) = length (apply_limits ll rl s')"
  by (simp add: apply_limits_def py_slice_def Let_def)

lemma length_trimmed:
  "length (seq r) = length (qual r) \<Longrightarrow> length (fst (trimmed opt r)) = length (snd (trimmed opt r))"
proof -
  assume "length (seq r) = length (qual r)"
  then have "length (fst (oriented r)) = length (snd (oriented r))"
    by (cases r) (simp_all add: oriented_def)
  then show ?thesis
    unfolding trimmed_def fst_conv snd_conv by (rule length_apply_limits_cong)
qed

lemma tally_read_sel:
  "cycle_nuc (tally_read dp opt n r sq ql st) =
     fst (tally_bases (leftlimit opt) sq ql (cycle_nuc st, cycle_qual st))"
  "cycle_qual (tally_read dp opt n r sq ql st) =
     snd (tally_bases (leftlimit opt) sq ql (cycle_nuc st, cycle_qual st))"
  "act_nlines (tally_read dp opt n r sq ql st) = act_nlines st + n"
  "cycle_gc (tally_read dp opt n r sq ql st) = incr (gc dp sq) (cycle_gc st)"
  "read_len (tally_read dp opt n r sq ql st) = incr (length ql) (read_len st)"
  "cycle_kmers (tally_read dp opt n r sq ql st) =
     tally_kmers (leftlimit opt) (window dp sq (kmer opt)) (cycle_kmers st)"
  "duplicates (tally_read dp opt n r sq ql st) =
     (case bloom_filter st of
        None \<Rightarrow> duplicates st
      | Some b \<Rightarrow> if bloom_contains dp b sq then duplicates st + 1 else duplicates st)"
  "bloom_filter (tally_read dp opt n r sq ql st) =
     (case bloom_filter st of
        None \<Rightarrow> None
      | Some b \<Rightarrow> if bloom_contains dp b sq then Some b else Some (bloom_add dp b sq))"
  by (simp_all add: tally_read_def Let_def case_prod_beta split: option.splits)

lemma process_read_total:
  "total (cycle_nuc (process_read dp opt n r st)) p =
     total (cycle_nuc st) p +
       (if \<not> role_skipped opt r \<and> leftlimit opt \<le> p \<and> p < leftlimit opt + int (cycles opt r)
        then 1 else 0)"
  "total (cycle_qual (process_read dp opt n r st)) p =
     total (cycle_qual st) p +
       (if \<not> role_skipped opt r \<and> leftlimit opt \<le> p \<and> p < leftlimit opt + int (cycles opt r)
        then 1 else 0)"
proof -
  obtain sq ql where t: "trimmed opt r = (sq, ql)" by (cases "trimmed opt r")
  obtain cn cq where f: "tally_bases (leftlimit opt) sq ql (cycle_nuc st, cycle_qual st) = (cn, cq)"
    by (cases "tally_bases (leftlimit opt) sq ql (cycle_nuc st, cycle_qual st)")
  note tb = tally_bases_total[where j = 0 and ll = "leftlimit opt" and xs = "zip sq ql", OF f[unfolded tally_bases_def], of p]
  show "total (cycle_nuc (process_read dp opt n r st)) p =
     total (cycle_nuc st) p +
       (if \<not> role_skipped opt r \<and> leftlimit opt \<le> p \<and> p < leftlimit opt + int (cycles opt r)
        then 1 else 0)"
    using tb by (simp add: process_read_def tally_read_sel t f cycles_def)
  show "total (cycle_qual (process_read dp opt n r st)) p =
     total (cycle_qual st) p +
       (if \<not> role_skipped opt r \<and> leftlimit opt \<le> p \<and> p < leftlimit opt + int (cycles opt r)
        then 1 else 0)"
    using tb by (simp add: process_read_def tally_read_sel t f cycles_def)
qed

lemma streaming_pass_total:
  "total (cycle_nuc (streaming_pass dp opt n reads st)) p =
     total (cycle_nuc st) p +
       length (filter (\<lambda>r. \<not> role_skipped opt r \<and> leftlimit opt \<le> p
                         \<and> p < leftlimit opt + int (cycles opt r)) reads)"
  "total (cycle_qual (streaming_pass dp opt n reads st)) p =
     total (cycle_qual st) p +
       length (filter (\<lambda>r. \<not> role_skipped opt r \<and> leftlimit opt \<le> p
                         \<and> p < leftlimit opt + int (cycles opt r)) reads)"
  unfolding streaming_pass_def
  by (induction reads arbitrary: st) (simp_all add: process_read_total)

lemma total_initial: "total (cycle_nuc (initial bf)) p = 0" "total (cycle_qual (initial bf)) p = 0"
  by (simp_all add: initial_def total_def get_or_Nil)

subsection \<open>A window outside the read\<close>

lemma apply_limits_outside:
  assumes "rl \<noteq> 0" and "window_outside ll rl (length s)"
  shows "apply_limits ll rl s = []"
proof -
  have out: "\<not> (1 \<le> p \<and> p \<le> int (length s) \<and> ll \<le> p \<and> (rl < 0 \<or> p \<le> rl))" for p
    using assms(2) by (auto simp: window_outside_def in_window_def)
  show ?thesis
  proof (cases "s = []")
    case True
    then show ?thesis by (simp add: apply_limits_def py_slice_def)
  next
    case False
    then have len: "1 \<le> int (length s)" by (cases s) auto
    have a: "\<not> (ll \<le> 1 \<and> rl < 0)" using out[of 1] len by auto
    have b: "\<not> (ll \<le> 1 \<and> rl > 0)" using out[of 1] len by auto
    have c: "ll > 1 \<Longrightarrow> rl < 0 \<Longrightarrow> int (length s) < ll" using out[of ll] by auto
    have d: "ll > 1 \<Longrightarrow> rl > 0 \<Longrightarrow> int (length s) < ll \<or> rl < ll" using out[of ll] by auto
    show ?thesis
    proof (cases "ll > 1")
      case True
      with c d assms(1) show ?thesis
        by (cases "rl < 0") (auto simp: apply_limits_def py_slice_def Let_def)
    next
      case False
      with a b assms(1) show ?thesis
        by (cases "rl < 0") auto
    qed
  qed
qed

lemma length_apply_limits_window:
  assumes "1 \<le> ll" and "rl \<noteq> 0"
  shows "(ll \<le> p \<and> p < ll + int (length (apply_limits ll rl s)))
         = (1 \<le> p \<and> p \<le> int (length s) \<and> in_window ll rl p)"
  using assms
  by (auto simp: apply_limits_def py_slice_def Let_def in_window_def min_def max_def)

lemma length_apply_limits_mono:
  assumes "1 \<le> ll" and "rl \<noteq> 0" and "length s \<le> length s'"
  shows "length (apply_limits ll rl s) \<le> length (apply_limits ll rl s')"
  using assms
  by (auto simp: apply_limits_def py_slice_def Let_def min_def max_def)

lemma length_oriented:
  "length (fst (oriented r)) = length (seq r)" "length (snd (oriented r)) = length (qual r)"
  by (cases r; simp add: oriented_def)+

lemma cycles_window:
  assumes "1 \<le> leftlimit opt" and "rightlimit opt \<noteq> 0" and "length (seq r) \<le> length (qual r)"
  shows "cycles opt r = length (apply_limits (leftlimit opt) (rightlimit opt) (fst (oriented r)))"
proof -
  have "length (fst (oriented r)) \<le> length (snd (oriented r))"
    using assms(3) by (simp add: length_oriented)
  from length_apply_limits_mono[OF assms(1,2) this]
  show ?thesis by (simp add: cycles_def trimmed_def)
qed

lemma covers_window:
  assumes "1 \<le> leftlimit opt" and "rightlimit opt \<noteq> 0"
  shows "covers opt r p
         = (leftlimit opt \<le> p
            \<and> p < leftlimit opt + int (length (apply_limits (leftlimit opt) (rightlimit opt)
                                                (fst (oriented r)))))"
  unfolding length_apply_limits_window[OF assms] by (simp add: covers_def length_oriented)

lemma retained_covers:
  assumes "1 \<le> leftlimit opt" and "rightlimit opt \<noteq> 0"
  shows "(retained opt r \<and> covers opt r p) = (\<not> role_skipped opt r \<and> covers opt r p)"
  unfolding covers_window[OF assms] by (auto simp: retained_def trimmed_def)

subsection \<open>The read counter and the duplicate counter\<close>






lemma demo_isr: "(case demo_run of Inl e \<Rightarrow> False | Inr x \<Rightarrow> True)"
  unfolding demo_run_def by code_simp

subsection \<open>Reads through a defaultdict keep every count\<close>

lemma get_or_touch: "get_or d (touch d k m) k' = get_or d m k'"
  by (simp add: touch_def get_or_update_default)

lemma count2_touch2: "count2 (touch2 p s t) p' s' = count2 t p' s'"
  by (simp add: count2_def touch2_def get_or_update_default get_or_touch)

lemma keys_touch2: "p \<in> fst ` set t \<Longrightarrow> map fst (touch2 p s t) = map fst t"
  by (simp add: touch2_def keys_update_default)

lemma positions_touch2: "p \<in> fst ` set t \<Longrightarrow> positions_of (touch2 p s t) = positions_of t"
  by (simp add: positions_of_def keys_touch2)


lemma pos_gc_loop_counts: "count2 (snd (pos_gc_loop ps cn)) p s = count2 cn p s"
  by (induction ps arbitrary: cn) (simp_all add: Let_def case_prod_beta count2_touch2)

lemma kmer_counts_values:
  "fst (kmer_counts k ps t) = map (\<lambda>i. (i, count2 t i k)) ps"
  by (induction ps arbitrary: t) (simp_all add: case_prod_beta count2_touch2)

lemma kmer_counts_counts: "count2 (snd (kmer_counts k ps t)) p s = count2 t p s"
  by (induction ps arbitrary: t) (simp_all add: case_prod_beta count2_touch2)

lemma kmer_counts_keys:
  "set ps \<subseteq> fst ` set t \<Longrightarrow> map fst (snd (kmer_counts k ps t)) = map fst t"
proof (induction ps arbitrary: t)
  case Nil
  then show ?case by simp
next
  case (Cons i ps)
  then have i: "i \<in> fst ` set t" and ps: "set ps \<subseteq> fst ` set t" by auto
  from ps have "set ps \<subseteq> fst ` set (touch2 i k t)"
    using keys_touch2[OF i, of k] by (metis set_map)
  from Cons.IH[OF this] show ?case
    by (simp add: case_prod_beta keys_touch2[OF i])
qed

subsection \<open>The kmer loop\<close>

lemma same_counts_refl: "same_counts t t"
  by (simp add: same_counts_def)

lemma same_counts_positions: "same_counts t t' \<Longrightarrow> positions_of t' = positions_of t"
  by (simp add: same_counts_def positions_of_def)

lemma same_counts_kmer_counts:
  assumes "same_counts t t0"
  shows "same_counts t (snd (kmer_counts k (positions_of t0) t0))"
    and "fst (kmer_counts k (positions_of t0) t0) = map (\<lambda>i. (i, count2 t i k)) (positions_of t)"
proof -
  have "set (positions_of t0) \<subseteq> fst ` set t0"
    by (simp add: positions_of_def)
  then have "map fst (snd (kmer_counts k (positions_of t0) t0)) = map fst t0"
    by (rule kmer_counts_keys)
  with assms show "same_counts t (snd (kmer_counts k (positions_of t0) t0))"
    by (simp add: same_counts_def kmer_counts_counts)
  from assms show "fst (kmer_counts k (positions_of t0) t0) = map (\<lambda>i. (i, count2 t i k)) (positions_of t)"
    by (simp add: kmer_counts_values same_counts_positions[OF assms] same_counts_def)
qed

lemma kmer_step_result:
  assumes "same_counts t t0"
    and "kmer_step sd priors total_bases k (oe, bad, t0) = Inr (oe', bad', t1)"
  shows "same_counts t t1 \<and> bad' = bad @ flagged sd t k"
proof -
  note kc = same_counts_kmer_counts[OF assms(1), of k]
  have m: "map (fst \<circ> (\<lambda>i. (i, count2 t i k))) (positions_of t) = positions_of t"
          "map (snd \<circ> (\<lambda>i. (i, count2 t i k))) (positions_of t) = map (\<lambda>i. count2 t i k) (positions_of t)"
    by (simp_all add: comp_def)
  from assms(2) show ?thesis
    using kc(1)
    by (auto simp: kmer_step_def case_prod_beta Let_def kc(2) m flagged_def kmer_regression_def
        split: if_splits sum.splits)
qed

lemma kmer_loop_result:
  assumes "same_counts t t0"
    and "kmer_loop sd priors total_bases ks (oe, bad, t0) = Inr (oe', bad', t1)"
  shows "same_counts t t1 \<and> bad' = bad @ concat (map (flagged sd t) ks)"
  using assms
proof (induction ks arbitrary: oe bad t0)
  case Nil
  then show ?case by simp
next
  case (Cons k ks)
  from Cons.prems(2) obtain oe2 bad2 t2 where
    s: "kmer_step sd priors total_bases k (oe, bad, t0) = Inr (oe2, bad2, t2)"
    and l: "kmer_loop sd priors total_bases ks (oe2, bad2, t2) = Inr (oe', bad', t1)"
    by (auto split: sum.splits)
  from kmer_step_result[OF Cons.prems(1) s] have "same_counts t t2" "bad2 = bad @ flagged sd t k"
    by auto
  with Cons.IH[OF _ l] show ?case by simp
qed











subsection \<open>Dictionaries under a change of keys or values\<close>

lemma update_default_map_key:
  "inj g \<Longrightarrow> update_default d f (g k) (map (\<lambda>(k, v). (g k, v)) m)
     = map (\<lambda>(k, v). (g k, v)) (update_default d f k m)"
  by (induction m) (auto simp: inj_eq)

lemma update_default_map_val:
  "h d = d' \<Longrightarrow> (\<And>v. h (f v) = f' (h v)) \<Longrightarrow>
   update_default d' f' k (map (\<lambda>(k, v). (k, h v)) m)
     = map (\<lambda>(k, v). (k, h v)) (update_default d f k m)"
  by (induction m) auto

lemma update_default_new:
  "k \<notin> fst ` set m \<Longrightarrow> update_default d f k m = m @ [(k, f d)]"
  by (induction m) auto

lemma update_default_old:
  "distinct (map fst m) \<Longrightarrow> k \<in> fst ` set m \<Longrightarrow>
   update_default d f k m = map (\<lambda>(k', v). (k', if k' = k then f v else v)) m"
proof (induction m)
  case Nil
  then show ?case by simp
next
  case (Cons a m)
  obtain k' v where a: "a = (k', v)" by (cases a)
  show ?case
  proof (cases "k = k'")
    case True
    with Cons.prems a have "k \<notin> fst ` set m" by auto
    then have "map (\<lambda>(k', v). (k', if k' = k then f v else v)) m = m"
      by (induction m) auto
    with True a show ?thesis by simp
  next
    case False
    with Cons a show ?thesis by auto
  qed
qed

lemma incr_sym: "incr (Sym q) (sym_counter v) = sym_counter (incr q v)"
  unfolding incr_def sym_counter_def
  by (rule update_default_map_key[where g = Sym]) (simp add: inj_def)

lemma incr2_as_symbols: "incr2 p (Sym q) (as_symbols cs) = as_symbols (incr2 p q cs)"
  unfolding incr2_def as_symbols_def
  by (rule update_default_map_val) (simp add: sym_counter_def, simp add: incr_sym)

lemma distinct_keys_incr2: "distinct_keys t \<Longrightarrow> distinct_keys (incr2 p s t)"
proof (induction t)
  case Nil
  then show ?case by (simp add: distinct_keys_def incr2_def incr_def)
next
  case (Cons a t)
  obtain p' v where a: "a = (p', v)" by (cases a)
  from Cons.prems have t: "distinct_keys t" by (simp add: distinct_keys_def)
  have k: "distinct (map fst (incr2 p s (a # t)))"
    using Cons.prems unfolding incr2_def distinct_keys_def by (simp add: keys_update_default)
  show ?case
  proof (cases "p = p'")
    case True
    with Cons.prems a show ?thesis
      by (simp add: distinct_keys_def incr2_def incr_def keys_update_default)
  next
    case False
    from Cons.IH[OF t] k Cons.prems False a show ?thesis
      by (simp add: distinct_keys_def incr2_def)
  qed
qed

subsection \<open>The quality tally is keyed by symbols after the pass\<close>

lemma tally_bases_symbols:
  "snd (fold (\<lambda>(i, (s, q)) (cn, cq). (incr2 (ll + int i) s cn, incr2 (ll + int i) (Sym q) cq))
          (enumerate j xs) (cn, as_symbols cs))
   = as_symbols (fold (\<lambda>(i, (s, q)). incr2 (ll + int i) q) (enumerate j xs) cs)"
  by (induction xs arbitrary: j cn cs) (simp_all add: case_prod_beta incr2_as_symbols)

lemma distinct_keys_fold:
  "distinct_keys cs \<Longrightarrow>
   distinct_keys (fold (\<lambda>(i, (s, q)). incr2 (ll + int i) q) (enumerate j xs) cs)"
  by (induction xs arbitrary: j cs) (simp_all add: case_prod_beta distinct_keys_incr2)

lemma symbol_keyed_process_read:
  assumes "symbol_keyed (cycle_qual st)"
  shows "symbol_keyed (cycle_qual (process_read dp opt n r st))"
proof -
  from assms obtain cs where cs: "cycle_qual st = as_symbols cs" "distinct_keys cs"
    by (auto simp: symbol_keyed_def)
  show ?thesis
  proof (cases "role_skipped opt r \<or> fst (trimmed opt r) = []")
    case True
    with assms show ?thesis
      by (auto simp: process_read_def case_prod_beta)
  next
    case False
    then have "cycle_qual (process_read dp opt n r st) =
        as_symbols (fold (\<lambda>(i, (s, q)). incr2 (leftlimit opt + int i) q)
                      (enumerate 0 (zip (fst (trimmed opt r)) (snd (trimmed opt r)))) cs)"
      by (simp add: process_read_def case_prod_beta tally_read_sel tally_bases_def cs(1)
          tally_bases_symbols)
    with distinct_keys_fold[OF cs(2)] show ?thesis
      unfolding symbol_keyed_def by blast
  qed
qed

lemma symbol_keyed_streaming_pass:
  "symbol_keyed (cycle_qual st) \<Longrightarrow> symbol_keyed (cycle_qual (streaming_pass dp opt n reads st))"
  unfolding streaming_pass_def
  by (induction reads arbitrary: st) (simp_all add: symbol_keyed_process_read)

lemma symbol_keyed_initial: "symbol_keyed (cycle_qual (initial bf))"
  unfolding symbol_keyed_def initial_def
  by (rule exI[of _ "[]"]) (simp add: as_symbols_def distinct_keys_def)

subsection \<open>Re-keying the quality tally\<close>

lemma pop_head:
  "k \<notin> fst ` set m \<Longrightarrow> pop k ((k, v) # m) = Inr (v, m)"
proof -
  assume "k \<notin> fst ` set m"
  then have "filter (\<lambda>kv. fst kv \<noteq> k) m = m"
    by (induction m) auto
  then show ?thesis by (simp add: pop_def)
qed

lemma rekey_keys_symbols:
  "distinct (map fst (done @ rest)) \<Longrightarrow>
   rekey_keys (map (\<lambda>kv. Sym (fst kv)) rest) (sym_counter rest @ score_counter done)
     = Inr (score_counter (done @ rest))"
proof (induction rest arbitrary: "done")
  case Nil
  then show ?case by (simp add: sym_counter_def)
next
  case (Cons a rest)
  obtain c k where a: "a = (c, k)" by (cases a)
  from Cons.prems a have d: "c \<notin> fst ` set rest" "c \<notin> fst ` set done"
    and d': "distinct (map fst ((done @ [a]) @ rest))"
    by auto
  have "Sym c \<notin> fst ` set (sym_counter rest @ score_counter done)"
    using d(1) by (force simp: sym_counter_def score_counter_def)
  then have p: "pop (Sym c) (sym_counter (a # rest) @ score_counter done)
                 = Inr (k, sym_counter rest @ score_counter done)"
    using pop_head[of "Sym c" "sym_counter rest @ score_counter done" k]
    by (simp add: a sym_counter_def)
  have "Score (of_char c - 33) \<notin> fst ` set (sym_counter rest @ score_counter done)"
    using d(2) by (force simp: sym_counter_def score_counter_def)
  then have s: "setitem (Score (of_char c - 33)) k (sym_counter rest @ score_counter done)
                 = sym_counter rest @ score_counter (done @ [a])"
    by (simp add: setitem_def update_default_new score_counter_def a)
  from Cons.IH[OF d'] show ?case
    by (simp add: rekey_one_def p[unfolded a] s a)
qed

lemma rekey_symbols:
  "distinct (map fst v) \<Longrightarrow> rekey (sym_counter v) = Inr (score_counter v)"
  using rekey_keys_symbols[of "[]" v]
  by (simp add: rekey_def sym_counter_def score_counter_def comp_def case_prod_beta)

lemma keys_mixed: "map fst (mixed D cs) = map fst cs"
  by (simp add: mixed_def case_prod_beta comp_def)

lemma map_of_mixed:
  "map_of (mixed D cs) p =
     map_option (\<lambda>v. if p \<in> D then score_counter v else sym_counter v) (map_of cs p)"
  unfolding mixed_def by (induction cs) auto

lemma setitem_mixed:
  assumes "distinct (map fst cs)" and "map_of cs p = Some v"
  shows "setitem p (score_counter v) (mixed D cs) = mixed (insert p D) cs"
proof -
  from assms(2) have "p \<in> fst ` set cs"
    by (metis map_of_eq_None_iff option.distinct(1))
  then have "p \<in> fst ` set (mixed D cs)"
    by (metis keys_mixed set_map)
  moreover have "distinct (map fst (mixed D cs))"
    using assms(1) by (simp add: keys_mixed)
  ultimately have "setitem p (score_counter v) (mixed D cs)
      = map (\<lambda>(k', w). (k', if k' = p then score_counter v else w)) (mixed D cs)"
    unfolding setitem_def by (rule update_default_old[rotated])
  also have "\<dots> = mixed (insert p D) cs"
    unfolding mixed_def map_map
  proof (rule map_cong[OF refl])
    fix x assume x: "x \<in> set cs"
    obtain k' v' where kv: "x = (k', v')" by (cases x)
    with x assms have "k' = p \<Longrightarrow> v' = v" by simp
    then show "((\<lambda>(k', w). (k', if k' = p then score_counter v else w)) \<circ>
          (\<lambda>(p, v). (p, if p \<in> D then score_counter v else sym_counter v))) x
        = (case x of (pa, v) \<Rightarrow> (pa, if pa \<in> insert p D then score_counter v else sym_counter v))"
      by (auto simp: kv)
  qed
  finally show ?thesis .
qed

lemma quantile_loop_mixed:
  assumes "distinct_keys cs"
  shows "distinct ps \<Longrightarrow> set ps \<subseteq> fst ` set cs \<Longrightarrow> D \<inter> set ps = {} \<Longrightarrow>
     \<exists>qs. quantile_loop pct ps (mixed D cs) = Inr (qs, mixed (D \<union> set ps) cs)"
proof (induction ps arbitrary: D)
  case Nil
  then show ?case by simp
next
  case (Cons p ps)
  from Cons.prems obtain v where v: "map_of cs p = Some v"
    by (metis list.set_intros(1) map_of_eq_None_iff not_Some_eq subsetD)
  from Cons.prems have pD: "p \<notin> D" by auto
  from v have "(p, v) \<in> set cs" by (rule map_of_SomeD)
  with assms have dv: "distinct (map fst v)"
    by (auto simp: distinct_keys_def list_all_iff)
  have g: "get_or [] (mixed D cs) p = sym_counter v"
    by (simp add: get_or_def map_of_mixed v pD)
  have s: "setitem p (score_counter v) (mixed D cs) = mixed (insert p D) cs"
    using assms v by (intro setitem_mixed) (simp_all add: distinct_keys_def)
  from Cons.prems have "distinct ps" "set ps \<subseteq> fst ` set cs" "insert p D \<inter> set ps = {}"
    by auto
  from Cons.IH[OF this] obtain qs where
    "quantile_loop pct ps (mixed (insert p D) cs) = Inr (qs, mixed (insert p D \<union> set ps) cs)"
    by blast
  then show ?case
    by (simp add: g rekey_symbols[OF dv] s)
qed

lemma quantile_loop_symbols:
  assumes "distinct_keys cs"
  shows "\<exists>qs. quantile_loop pct (positions_of (as_symbols cs)) (as_symbols cs) = Inr (qs, as_scores cs)"
proof -
  have k: "map fst (as_symbols cs) = map fst cs"
    by (simp add: as_symbols_def case_prod_beta comp_def)
  have m0: "mixed {} cs = as_symbols cs"
    by (simp add: mixed_def as_symbols_def)
  have "mixed (set (map fst cs)) cs = as_scores cs"
    unfolding mixed_def as_scores_def by (rule map_cong[OF refl]) force
  then have m1: "mixed ({} \<union> set (positions_of (as_symbols cs))) cs = as_scores cs"
    by (simp add: positions_of_def k)
  from assms have "distinct (positions_of (as_symbols cs))"
    by (simp add: positions_of_def k distinct_keys_def)
  moreover have "set (positions_of (as_symbols cs)) \<subseteq> fst ` set cs"
    by (simp add: positions_of_def k)
  ultimately show ?thesis
    using quantile_loop_mixed[OF assms, of "positions_of (as_symbols cs)" "{}" pct]
    unfolding m0 m1 by simp
qed

subsection \<open>The derived statistics as a whole\<close>

lemma derived_statistics_fields:
  assumes "derived_statistics sd priors ks st = Inr (st', d)"
  shows "read_len st' = read_len st" "cycle_gc st' = cycle_gc st"
    "cycle_mismatch st' = cycle_mismatch st" "bloom_filter st' = bloom_filter st"
    "cycle_nuc st' = snd (pos_gc_loop (positions_of (cycle_qual st)) (cycle_nuc st))"
    "\<exists>oe bad. kmer_loop sd priors (sequenced_bases (read_len st)) ks ([], [], cycle_kmers st)
               = Inr (oe, bad, cycle_kmers st')"
    "\<exists>qs. quantile_loop (percentile sd) (positions_of (cycle_qual st)) (cycle_qual st)
               = Inr (qs, cycle_qual st')"
  using assms
  by (auto simp: derived_statistics_def Let_def case_prod_beta split: sum.splits)

lemma demo_run_pass:
  "demo_run = derived_statistics trivial_stats [1 / 4, 1 / 4, 1 / 4, 1 / 4, 1 / 10]
                (kmers_of (cycle_kmers demo_pass)) demo_pass"
  by (simp add: demo_run_def demo_pass_def get_metrics_def set_binsize_def truthy_def
      bloom_setup_def default_opts_def Let_def)

lemma demo_pass_value:
  "read_len demo_pass = [(2, 2)] \<and> count2 (cycle_nuc demo_pass) 1 CHR ''A'' = 2
   \<and> cycle_qual demo_pass = [(1, [(Sym CHR ''I'', 2)]), (2, [(Sym CHR ''I'', 2)])]"
  unfolding demo_pass_def by code_simp

subsection \<open>Shifting the cycle positions\<close>

lemma incr2_relabel: "incr2 (p + d) s (relabel d t) = relabel d (incr2 p s t)"
  unfolding incr2_def relabel_def
  by (rule update_default_map_key[where g = "\<lambda>p. p + d"]) (simp add: inj_def)

lemma incr2_relabel_from_one:
  "incr2 (1 + d + int j) s (relabel d t) = relabel d (incr2 (1 + int j) s t)"
  using incr2_relabel[of "1 + int j" d s t] by (simp add: add.commute add.left_commute)

lemma tally_bases_relabel:
  "fold (\<lambda>(i, (s, q)) (cn, cq). (incr2 (1 + d + int i) s cn, incr2 (1 + d + int i) (Sym q) cq))
        (enumerate j xs) (relabel d cn, relabel d cq)
   = (\<lambda>(cn', cq'). (relabel d cn', relabel d cq'))
       (fold (\<lambda>(i, (s, q)) (cn, cq). (incr2 (1 + int i) s cn, incr2 (1 + int i) (Sym q) cq))
          (enumerate j xs) (cn, cq))"
proof (induction xs arbitrary: j cn cq)
  case Nil
  then show ?case by simp
next
  case (Cons x xs)
  then show ?case
    by (simp add: case_prod_beta incr2_relabel_from_one)
qed

lemma tally_kmers_relabel:
  "fold (\<lambda>(i, k_mer). incr2 (1 + d + int i) k_mer) (enumerate j ws) (relabel d t)
   = relabel d (fold (\<lambda>(i, k_mer). incr2 (1 + int i) k_mer) (enumerate j ws) t)"
proof (induction ws arbitrary: j t)
  case Nil
  then show ?case by simp
next
  case (Cons w ws)
  then show ?case
    by (simp add: case_prod_beta incr2_relabel_from_one)
qed

lemma map_of_relabel_each:
  "map_of (map (\<lambda>(b, t). (b, relabel d t)) mm) r = map_option (relabel d) (map_of mm r)"
  by (induction mm) auto

lemma tally_mismatch_relabel:
  "fold (\<lambda>(i, (s, r)) mm.
           if s \<noteq> r
           then (case map_of mm r of
                   None \<Rightarrow> mm
                 | Some t \<Rightarrow> update_default [] (incr2 (1 + d + int i) s) r mm)
           else mm)
        (enumerate j xs) (map (\<lambda>(b, t). (b, relabel d t)) mm)
   = map (\<lambda>(b, t). (b, relabel d t))
       (fold (\<lambda>(i, (s, r)) mm.
                if s \<noteq> r
                then (case map_of mm r of
                        None \<Rightarrow> mm
                      | Some t \<Rightarrow> update_default [] (incr2 (1 + int i) s) r mm)
                else mm)
          (enumerate j xs) mm)"
proof (induction xs arbitrary: j mm)
  case Nil
  then show ?case by simp
next
  case (Cons x xs)
  obtain s r where x: "x = (s, r)" by (cases x)
  have u: "update_default [] (incr2 (1 + d + int j) s) r (map (\<lambda>(b, t). (b, relabel d t)) mm)
         = map (\<lambda>(b, t). (b, relabel d t)) (update_default [] (incr2 (1 + int j) s) r mm)"
    by (rule update_default_map_val) (simp add: relabel_def, simp add: incr2_relabel_from_one)
  show ?case
    using Cons.IH by (simp add: x map_of_relabel_each u split: option.splits)
qed

lemma tally_bases_relabel_fn:
  "tally_bases (1 + d) sq ql (relabel d cn, relabel d cq)
   = (relabel d (fst (tally_bases 1 sq ql (cn, cq))), relabel d (snd (tally_bases 1 sq ql (cn, cq))))"
  unfolding tally_bases_def tally_bases_relabel by (simp add: case_prod_beta)

lemma tally_kmers_relabel_fn:
  "tally_kmers (1 + d) ws (relabel d t) = relabel d (tally_kmers 1 ws t)"
  unfolding tally_kmers_def by (rule tally_kmers_relabel)

lemma tally_mismatch_relabel_fn:
  "tally_mismatch (1 + d) sq ref (map (\<lambda>(b, t). (b, relabel d t)) mm)
   = map (\<lambda>(b, t). (b, relabel d t)) (tally_mismatch 1 sq ref mm)"
  unfolding tally_mismatch_def by (rule tally_mismatch_relabel)

lemma trimmed_below_one:
  "leftlimit opt < 1 \<Longrightarrow> trimmed opt r = oriented r"
  by (simp add: trimmed_def apply_limits_def)

lemma trimmed_default:
  "trimmed (opt\<lparr>leftlimit := 1, rightlimit := - 1\<rparr>) r = oriented r"
  by (simp add: trimmed_def apply_limits_def)

lemma tally_read_relabel:
  assumes "leftlimit opt = 1 + d"
  shows "tally_read dp opt n r sq ql (relabel_metrics d st)
       = relabel_metrics d (tally_read dp (opt\<lparr>leftlimit := 1, rightlimit := - 1\<rparr>) n r sq ql st)"
  unfolding tally_read_def Let_def assms
  by (cases r)
     (simp_all add: relabel_metrics_def case_prod_beta tally_bases_relabel_fn
        tally_kmers_relabel_fn tally_mismatch_relabel_fn split: option.splits)

lemma relabel_initial: "relabel_metrics d (initial bf) = initial bf"
  by (simp add: relabel_metrics_def initial_def relabel_def)

subsection \<open>The report\<close>




text \<open>
  With \<open>leftlimit = 2\<close> the positions are 2 and 3 and \<open>pos_gc\<close> has two entries: line 319
  asks for \<open>pos_gc[2]\<close> and raises IndexError before the \<open>duplicate\<close> row is written.
\<close>

lemma late_window_report_value: "late_window_report = Inl IndexError"
  unfolding late_window_report_def by code_simp

section \<open>The claims\<close>

text \<open>
  C1 (amended). For every input whose estimated record count \<open>est_nlines\<close> is available
  and not zero, with no binsize override (\<open>binsize\<close> is None or 0) and \<open>nreads\<close> not
  zero, the stride is \<open>n = max(1, floor(est_nlines / nreads))\<close>; it is a function of
  these inputs alone, so estimating again gives the same \<open>n\<close>. A zero estimate leaves at
  line 112 and \<open>nreads = 0\<close> raises ZeroDivisionError at line 118.
\<close>

theorem stride_from_estimate:
  assumes "est \<noteq> 0" and "\<not> truthy binsize" and "nreads \<noteq> 0"
  shows "set_binsize (Some est) binsize nreads n0 = Inr (max 1 (est div nreads))"
  using assms by (auto simp: set_binsize_def Let_def max_def)

theorem stride_from_estimate_witness:
  "(5000000::int) \<noteq> 0 \<and> \<not> truthy None \<and> default_nreads \<noteq> 0
   \<and> set_binsize (Some 5000000) None default_nreads None = Inr 2"
  using stride_from_estimate[of 5000000 None default_nreads None]
  by (simp add: truthy_def default_nreads_def)

text \<open>
  As the claim is worded it fails where the estimate is 0 (no stride is computed, the run
  exits) and where \<open>nreads\<close> is 0.
\<close>

theorem stride_counterexample:
  "set_binsize (Some 0) None default_nreads None \<noteq> Inr (max 1 (0 div default_nreads))
   \<and> set_binsize (Some 0) None default_nreads None = Inl (SystemExit empty_input_message)
   \<and> set_binsize (Some 5) None 0 None = Inl ZeroDivisionError"
  by (simp add: set_binsize_def truthy_def)

text \<open>
  C2. When the estimated record count is exactly 0, \<open>get_metrics\<close> ends at line 112,
  before the read loop and before any tally exists, with the message that the input
  appears empty and a non-zero exit status, whatever the other inputs are.
\<close>

theorem empty_input_is_fatal:
  assumes "est_nlines opt = Some 0"
  shows "get_metrics dp sd opt binsize nreads n0 count_duplicates pybloom priors subsample
           = Inl (SystemExit empty_input_message)
         \<and> exit_status (SystemExit empty_input_message) \<noteq> 0"
  using assms by (simp add: get_metrics_def set_binsize_def)

theorem empty_input_is_fatal_witness:
  "est_nlines (default_opts (Some 0)) = Some 0
   \<and> get_metrics exact_deps trivial_stats (default_opts (Some 0)) None default_nreads None False None
        [] (\<lambda>k. [FastqRead ''ACGT'' ''IIII''])
      = Inl (SystemExit ''The input file appears empty. Please check the file for data.'')"
  using empty_input_is_fatal[of "default_opts (Some 0)" exact_deps trivial_stats None default_nreads None False None
        "[]" "\<lambda>k. [FastqRead ''ACGT'' ''IIII'']"]
  by (simp add: default_opts_def empty_input_message_def)

text \<open>
  C3 (amended). For every read that reaches the windowing step (it is not skipped by a
  role filter): if \<open>rightlimit\<close> is not 0 and the window \<open>[leftlimit, rightlimit]\<close> holds
  none of the read's cycles, or if the trimmed sequence is empty, the read adds \<open>n\<close> to
  \<open>act_nlines\<close> and changes nothing else: no tally, no histogram, no duplicate-detector
  state.
\<close>

theorem window_skip:
  assumes "\<not> role_skipped opt r"
    and "(rightlimit opt \<noteq> 0 \<and> window_outside (leftlimit opt) (rightlimit opt) (length (seq r)))
         \<or> length (fst (trimmed opt r)) = 0"
  shows "process_read dp opt n r st = st\<lparr> act_nlines := act_nlines st + n \<rparr>"
proof -
  have "length (fst (oriented r)) = length (seq r)"
    by (cases r) (simp_all add: oriented_def)
  with assms(2) have "fst (trimmed opt r) = []"
    by (auto simp: trimmed_def intro: apply_limits_outside)
  with assms(1) show ?thesis
    by (simp add: process_read_def case_prod_beta)
qed

theorem window_skip_witness:
  "\<not> role_skipped ((default_opts (Some 10))\<lparr>leftlimit := 5\<rparr>) (FastqRead ''ACG'' ''III'')
   \<and> window_outside 5 (- 1) 3
   \<and> process_read exact_deps ((default_opts (Some 10))\<lparr>leftlimit := 5\<rparr>) 1
        (FastqRead ''ACG'' ''III'') (initial None)
      = (initial None)\<lparr> act_nlines := 1 \<rparr>"
proof -
  let ?opt = "(default_opts (Some 10))\<lparr>leftlimit := 5\<rparr>"
  let ?r = "FastqRead ''ACG'' ''III''"
  have w: "window_outside 5 (- 1) 3" by (simp add: window_outside_def in_window_def)
  have r: "\<not> role_skipped ?opt ?r"
    by (simp add: role_skipped_def)
  have h: "(rightlimit ?opt \<noteq> 0 \<and> window_outside (leftlimit ?opt) (rightlimit ?opt) (length (seq ?r)))
         \<or> length (fst (trimmed ?opt ?r)) = 0"
    by (simp add: window_outside_def in_window_def default_opts_def)
  from window_skip[OF r h, of exact_deps 1 "initial None"] w r
  show ?thesis by (simp add: initial_def)
qed

text \<open>
  As the claim is worded it fails for \<open>rightlimit = 0\<close>: no branch of lines 173--189
  applies, the read of length 3 is tallied untrimmed at cycles 5, 6 and 7 although the
  window \<open>[5, 0]\<close> holds none of its cycles.
\<close>

theorem window_skip_counterexample:
  "window_outside 5 0 3
   \<and> cycle_nuc (process_read exact_deps ((default_opts (Some 10))\<lparr>leftlimit := 5, rightlimit := 0\<rparr>) 1
        (FastqRead ''ACG'' ''III'') (initial None))
      = [(5, [(CHR ''A'', 1)]), (6, [(CHR ''C'', 1)]), (7, [(CHR ''G'', 1)])]"
  by (simp add: window_outside_def in_window_def process_read_def role_skipped_def trimmed_def
      oriented_def apply_limits_def default_opts_def tally_read_def tally_bases_def
      incr2_def incr_def initial_def Let_def enumerate_eq_zip)

text \<open>
  C4 (amended). After the streaming pass, at every cycle position the counts of the
  nucleotide tally and the counts of the quality tally have the same sum. When
  \<open>leftlimit\<close> is at least 1, \<open>rightlimit\<close> is not 0 and no read has fewer quality symbols
  than bases, that sum is the number of retained reads that cover the position: the
  reads that pass the role filters, are not empty after trimming and have the cycle,
  counted from 1 along the read, inside the window \<open>[leftlimit, rightlimit]\<close>.
\<close>

theorem cycle_totals_agree:
  "total (cycle_nuc (streaming_pass dp opt n reads (initial bf))) p =
     total (cycle_qual (streaming_pass dp opt n reads (initial bf))) p
   \<and> (1 \<le> leftlimit opt \<and> rightlimit opt \<noteq> 0
        \<and> (\<forall>r \<in> set reads. length (seq r) \<le> length (qual r))
      \<longrightarrow> total (cycle_nuc (streaming_pass dp opt n reads (initial bf))) p =
            length (filter (\<lambda>r. retained opt r \<and> covers opt r p) reads))"
proof -
  have a: "total (cycle_nuc (streaming_pass dp opt n reads (initial bf))) p =
     total (cycle_qual (streaming_pass dp opt n reads (initial bf))) p"
    by (simp add: streaming_pass_total total_initial)
  have b: "total (cycle_nuc (streaming_pass dp opt n reads (initial bf))) p =
            length (filter (\<lambda>r. retained opt r \<and> covers opt r p) reads)"
    if ll: "1 \<le> leftlimit opt" and rl: "rightlimit opt \<noteq> 0"
      and len: "\<forall>r \<in> set reads. length (seq r) \<le> length (qual r)"
  proof -
    have "filter (\<lambda>r. \<not> role_skipped opt r \<and> leftlimit opt \<le> p
                         \<and> p < leftlimit opt + int (cycles opt r)) reads
        = filter (\<lambda>r. retained opt r \<and> covers opt r p) reads"
    proof (rule filter_cong[OF refl])
      fix r assume "r \<in> set reads"
      with len have l: "length (seq r) \<le> length (qual r)" by simp
      have w: "(leftlimit opt \<le> p \<and> p < leftlimit opt + int (cycles opt r)) = covers opt r p"
        unfolding cycles_window[OF ll rl l] covers_window[OF ll rl] by simp
      from w show "(\<not> role_skipped opt r \<and> leftlimit opt \<le> p \<and> p < leftlimit opt + int (cycles opt r))
          = (retained opt r \<and> covers opt r p)"
        by (simp add: retained_covers[OF ll rl])
    qed
    then show ?thesis
      by (simp add: streaming_pass_total total_initial)
  qed
  from a b show ?thesis by blast
qed

theorem cycle_totals_agree_witness:
  "1 \<le> leftlimit ((default_opts (Some 3))\<lparr>leftlimit := 2, rightlimit := 3\<rparr>)
   \<and> rightlimit ((default_opts (Some 3))\<lparr>leftlimit := 2, rightlimit := 3\<rparr>) \<noteq> 0
   \<and> list_all (\<lambda>r. length (seq r) \<le> length (qual r))
        [FastqRead ''ACGT'' ''IIII'', FastqRead ''AC'' ''II'', FastqRead ''A'' ''I'']
   \<and> total (cycle_nuc (streaming_pass exact_deps
          ((default_opts (Some 3))\<lparr>leftlimit := 2, rightlimit := 3\<rparr>) 1
          [FastqRead ''ACGT'' ''IIII'', FastqRead ''AC'' ''II'', FastqRead ''A'' ''I'']
          (initial None))) 2 = 2
   \<and> total (cycle_qual (streaming_pass exact_deps
          ((default_opts (Some 3))\<lparr>leftlimit := 2, rightlimit := 3\<rparr>) 1
          [FastqRead ''ACGT'' ''IIII'', FastqRead ''AC'' ''II'', FastqRead ''A'' ''I'']
          (initial None))) 2 = 2"
proof -
  let ?opt = "(default_opts (Some 3))\<lparr>leftlimit := 2, rightlimit := 3\<rparr>"
  let ?rs = "[FastqRead ''ACGT'' ''IIII'', FastqRead ''AC'' ''II'', FastqRead ''A'' ''I'']"
  have h: "1 \<le> leftlimit ?opt" "rightlimit ?opt \<noteq> 0"
    "\<forall>r \<in> set ?rs. length (seq r) \<le> length (qual r)"
    by (simp_all add: default_opts_def)
  have c: "length (filter (\<lambda>r. retained ?opt r \<and> covers ?opt r 2) ?rs) = 2"
    by (simp add: retained_def trimmed_def oriented_def apply_limits_def py_slice_def
        covers_def role_skipped_def in_window_def default_opts_def)
  from cycle_totals_agree[of exact_deps ?opt 1 ?rs None 2] h c
  show ?thesis by simp
qed

text \<open>
  As the claim is worded the second half fails in three ways. A read with fewer quality
  symbols than bases is tallied only as far as its quality goes (line 201 zips the two):
  \<open>ACGT\<close> with quality \<open>II\<close> covers cycle 3 and adds nothing there. With \<open>rightlimit = 0\<close>
  no branch of lines 173--189 applies and the read is tallied untrimmed from cycle
  \<open>leftlimit\<close> on: a read of length 3 is counted at cycle 5, which it does not have. With
  \<open>leftlimit = 0\<close> the first base is tallied at cycle 0, so cycle 3 of a read of length 3
  has no count.
\<close>

theorem cycle_totals_counterexample:
  "total (cycle_nuc (streaming_pass exact_deps (default_opts (Some 1)) 1
      [FastqRead ''ACGT'' ''II''] (initial None))) 3 = 0
   \<and> length (filter (\<lambda>r. retained (default_opts (Some 1)) r \<and> covers (default_opts (Some 1)) r 3)
        [FastqRead ''ACGT'' ''II'']) = 1
   \<and> total (cycle_nuc (streaming_pass exact_deps
        ((default_opts (Some 1))\<lparr>leftlimit := 5, rightlimit := 0\<rparr>) 1
        [FastqRead ''ACG'' ''III''] (initial None))) 5 = 1
   \<and> length (filter (\<lambda>r. retained ((default_opts (Some 1))\<lparr>leftlimit := 5, rightlimit := 0\<rparr>) r
                        \<and> covers ((default_opts (Some 1))\<lparr>leftlimit := 5, rightlimit := 0\<rparr>) r 5)
        [FastqRead ''ACG'' ''III'']) = 0
   \<and> total (cycle_nuc (streaming_pass exact_deps ((default_opts (Some 1))\<lparr>leftlimit := 0\<rparr>) 1
        [FastqRead ''ACG'' ''III''] (initial None))) 3 = 0
   \<and> length (filter (\<lambda>r. retained ((default_opts (Some 1))\<lparr>leftlimit := 0\<rparr>) r
                        \<and> covers ((default_opts (Some 1))\<lparr>leftlimit := 0\<rparr>) r 3)
        [FastqRead ''ACG'' ''III'']) = 1"
  by (simp add: streaming_pass_total total_initial cycles_def trimmed_def oriented_def
      apply_limits_def py_slice_def role_skipped_def retained_def covers_def
      in_window_def default_opts_def)

text \<open>
  C5. A Sam read skipped by a role filter leaves the loop body at line 158 or 160 with
  \<open>act_nlines\<close> as it was: with \<open>aligned_only\<close> set an unmapped read adds nothing to the
  counter, where the same read without the filter adds the stride 1.
\<close>

theorem role_filter_skip_not_counted:
  "role_skipped ((default_opts (Some 10))\<lparr>aligned_only := True\<rparr>) (Sam ''ACGT'' ''IIII'' False False None)
   \<and> act_nlines (process_read exact_deps ((default_opts (Some 10))\<lparr>aligned_only := True\<rparr>) 1
        (Sam ''ACGT'' ''IIII'' False False None) (initial None)) = 0
   \<and> act_nlines (process_read exact_deps (default_opts (Some 10)) 1
        (Sam ''ACGT'' ''IIII'' False False None) (initial None)) = 1"
  by (simp add: process_read_def role_skipped_def default_opts_def initial_def trimmed_def
      oriented_def apply_limits_def tally_read_sel)








text \<open>
  C9 (amended). The derived-statistics phase after a streaming pass changes no count:
  the read-length histogram, the GC histogram, the mismatch tally and the duplicate set
  are left as they are; the nucleotide and kmer tallies keep the count of every symbol at
  every position (the reads of lines 265 and 279--282 go through the defaultdicts and may
  add entries with count 0); the quality tally is re-keyed in place by line 247, from each
  quality symbol \<open>q\<close> to the integer \<open>ord(q) - 33\<close>, in the same order with the same
  counts.
\<close>

theorem derived_statistics_frame:
  assumes "st = streaming_pass dp opt n reads (initial bf)"
    and "derived_statistics sd priors ks st = Inr (st', d)"
  shows "read_len st' = read_len st \<and> cycle_gc st' = cycle_gc st
         \<and> cycle_mismatch st' = cycle_mismatch st \<and> bloom_filter st' = bloom_filter st
         \<and> (\<forall>p s. count2 (cycle_nuc st') p s = count2 (cycle_nuc st) p s)
         \<and> (\<forall>p s. count2 (cycle_kmers st') p s = count2 (cycle_kmers st) p s)
         \<and> (\<exists>cs. cycle_qual st = as_symbols cs \<and> cycle_qual st' = as_scores cs)"
proof -
  note f = derived_statistics_fields[OF assms(2)]
  have nuc: "\<forall>p s. count2 (cycle_nuc st') p s = count2 (cycle_nuc st) p s"
    by (simp add: f(5) pos_gc_loop_counts)
  from f(6) obtain oe bad where
    "kmer_loop sd priors (sequenced_bases (read_len st)) ks ([], [], cycle_kmers st)
       = Inr (oe, bad, cycle_kmers st')"
    by blast
  from kmer_loop_result[OF same_counts_refl this]
  have kmers: "\<forall>p s. count2 (cycle_kmers st') p s = count2 (cycle_kmers st) p s"
    by (simp add: same_counts_def)
  have "symbol_keyed (cycle_qual st)"
    unfolding assms(1) by (rule symbol_keyed_streaming_pass[OF symbol_keyed_initial])
  then obtain cs where cs: "cycle_qual st = as_symbols cs" "distinct_keys cs"
    by (auto simp: symbol_keyed_def)
  from quantile_loop_symbols[OF cs(2), of "percentile sd"] f(7)
  have "cycle_qual st' = as_scores cs"
    by (auto simp: cs(1))
  with cs(1) have qual: "\<exists>cs. cycle_qual st = as_symbols cs \<and> cycle_qual st' = as_scores cs"
    by blast
  from f(1-4) nuc kmers qual show ?thesis by simp
qed

theorem derived_statistics_frame_witness:
  "\<exists>st' d. demo_run = Inr (st', d) \<and> read_len st' = [(2, 2)]
     \<and> count2 (cycle_nuc st') 1 CHR ''A'' = 2"
proof -
  obtain st' d where g: "demo_run = Inr (st', d)"
    using demo_isr by (auto split: sum.splits)
  from derived_statistics_frame[OF demo_pass_def g[unfolded demo_run_pass]] demo_pass_value
  have "read_len st' = [(2, 2)] \<and> count2 (cycle_nuc st') 1 CHR ''A'' = 2"
    by simp
  with g show ?thesis by blast
qed

text \<open>
  As the claim is worded it fails for the quality tally: after the quantile computation
  its keys are the scores, here 40, where the pass had left the symbol \<open>I\<close>.
\<close>

theorem derived_statistics_frame_counterexample:
  "(case demo_run of
      Inl e \<Rightarrow> False
    | Inr (st', d) \<Rightarrow>
        cycle_qual demo_pass = [(1, [(Sym CHR ''I'', 2)]), (2, [(Sym CHR ''I'', 2)])]
        \<and> cycle_qual st' = [(1, [(Score 40, 2)]), (2, [(Score 40, 2)])]
        \<and> cycle_qual st' \<noteq> cycle_qual demo_pass)"
  unfolding demo_run_def demo_pass_def by code_simp

text \<open>
  C10 (amended). For every read processed with \<open>leftlimit < 1\<close> no trimming branch
  applies, whatever \<open>rightlimit\<close> is: sequence and quality are tallied untrimmed and
  nothing is raised. The read changes the state as it does under the default window
  \<open>leftlimit = 1, rightlimit = -1\<close>, except that every cycle position is
  \<open>leftlimit + i\<close> instead of \<open>1 + i\<close>: the step commutes with moving the positions of
  the four cycle tallies by \<open>leftlimit - 1\<close>.
\<close>

theorem no_trimming_below_one:
  assumes "leftlimit opt < 1"
  shows "trimmed opt r = oriented r
         \<and> process_read dp opt n r (relabel_metrics (leftlimit opt - 1) st)
           = relabel_metrics (leftlimit opt - 1)
               (process_read dp (opt\<lparr>leftlimit := 1, rightlimit := - 1\<rparr>) n r st)"
proof -
  have t: "trimmed opt r = oriented r"
    using assms by (rule trimmed_below_one)
  have s: "role_skipped (opt\<lparr>leftlimit := 1, rightlimit := - 1\<rparr>) r = role_skipped opt r"
    by (cases r) (simp_all add: role_skipped_def)
  have l: "leftlimit opt = 1 + (leftlimit opt - 1)" by simp
  have "process_read dp opt n r (relabel_metrics (leftlimit opt - 1) st)
           = relabel_metrics (leftlimit opt - 1)
               (process_read dp (opt\<lparr>leftlimit := 1, rightlimit := - 1\<rparr>) n r st)"
  proof (cases "role_skipped opt r")
    case True
    then show ?thesis by (simp add: process_read_def s)
  next
    case False
    show ?thesis
    proof (cases "fst (oriented r) = []")
      case True
      with False show ?thesis
        by (simp add: process_read_def s t trimmed_default case_prod_beta relabel_metrics_def)
    next
      case nonempty: False
      with False show ?thesis
        by (simp add: process_read_def s t trimmed_default case_prod_beta tally_read_relabel[OF l])
    qed
  qed
  with t show ?thesis by simp
qed

theorem no_trimming_below_one_witness:
  "leftlimit ((default_opts (Some 10))\<lparr>leftlimit := 0, rightlimit := 2\<rparr>) < 1
   \<and> cycle_nuc (process_read exact_deps ((default_opts (Some 10))\<lparr>leftlimit := 0, rightlimit := 2\<rparr>)
        1 (FastqRead ''ACG'' ''III'') (initial None))
     = [(0, [(CHR ''A'', 1)]), (1, [(CHR ''C'', 1)]), (2, [(CHR ''G'', 1)])]"
proof -
  let ?opt = "(default_opts (Some 10))\<lparr>leftlimit := 0, rightlimit := 2\<rparr>"
  have h: "leftlimit ?opt < 1" by (simp add: default_opts_def)
  have d: "cycle_nuc (process_read exact_deps ((default_opts (Some 10))\<lparr>leftlimit := 1, rightlimit := - 1\<rparr>)
        1 (FastqRead ''ACG'' ''III'') (initial None))
     = [(1, [(CHR ''A'', 1)]), (2, [(CHR ''C'', 1)]), (3, [(CHR ''G'', 1)])]"
    by (simp add: process_read_def role_skipped_def trimmed_def
      oriented_def apply_limits_def default_opts_def tally_read_sel tally_bases_def
      incr2_def incr_def initial_def enumerate_eq_zip)
  from no_trimming_below_one[OF h, of "FastqRead ''ACG'' ''III''" exact_deps 1 "initial None"]
  have "process_read exact_deps ?opt 1 (FastqRead ''ACG'' ''III'') (initial None)
        = relabel_metrics (- 1) (process_read exact_deps (?opt\<lparr>leftlimit := 1, rightlimit := - 1\<rparr>)
        1 (FastqRead ''ACG'' ''III'') (initial None))"
    by (simp add: relabel_initial default_opts_def)
  then have "cycle_nuc (process_read exact_deps ?opt 1 (FastqRead ''ACG'' ''III'') (initial None))
        = relabel (- 1) [(1, [(CHR ''A'', 1)]), (2, [(CHR ''C'', 1)]), (3, [(CHR ''G'', 1)])]"
    by (simp add: relabel_metrics_def d)
  with h show ?thesis by (simp add: relabel_def)
qed

text \<open>
  As the claim is worded, "exactly as if the default window had been configured", it
  fails: with \<open>leftlimit = 0\<close> the bases of a read are tallied at cycles 0, 1, 2, with the
  default window at cycles 1, 2, 3.
\<close>

theorem no_trimming_below_one_counterexample:
  "cycle_nuc (process_read exact_deps ((default_opts (Some 10))\<lparr>leftlimit := 0\<rparr>)
        1 (FastqRead ''ACG'' ''III'') (initial None))
     = [(0, [(CHR ''A'', 1)]), (1, [(CHR ''C'', 1)]), (2, [(CHR ''G'', 1)])]
   \<and> cycle_nuc (process_read exact_deps (default_opts (Some 10))
        1 (FastqRead ''ACG'' ''III'') (initial None))
     = [(1, [(CHR ''A'', 1)]), (2, [(CHR ''C'', 1)]), (3, [(CHR ''G'', 1)])]
   \<and> process_read exact_deps ((default_opts (Some 10))\<lparr>leftlimit := 0\<rparr>)
        1 (FastqRead ''ACG'' ''III'') (initial None)
     \<noteq> process_read exact_deps (default_opts (Some 10))
        1 (FastqRead ''ACG'' ''III'') (initial None)"
proof -
  have a: "cycle_nuc (process_read exact_deps ((default_opts (Some 10))\<lparr>leftlimit := 0\<rparr>)
        1 (FastqRead ''ACG'' ''III'') (initial None))
     = [(0, [(CHR ''A'', 1)]), (1, [(CHR ''C'', 1)]), (2, [(CHR ''G'', 1)])]"
    by (simp add: process_read_def role_skipped_def trimmed_def
      oriented_def apply_limits_def default_opts_def tally_read_sel tally_bases_def
      incr2_def incr_def initial_def enumerate_eq_zip)
  have b: "cycle_nuc (process_read exact_deps (default_opts (Some 10))
        1 (FastqRead ''ACG'' ''III'') (initial None))
     = [(1, [(CHR ''A'', 1)]), (2, [(CHR ''C'', 1)]), (3, [(CHR ''G'', 1)])]"
    by (simp add: process_read_def role_skipped_def trimmed_def
      oriented_def apply_limits_def default_opts_def tally_read_sel tally_bases_def
      incr2_def incr_def initial_def enumerate_eq_zip)
  from a b have "process_read exact_deps ((default_opts (Some 10))\<lparr>leftlimit := 0\<rparr>)
        1 (FastqRead ''ACG'' ''III'') (initial None)
     \<noteq> process_read exact_deps (default_opts (Some 10))
        1 (FastqRead ''ACG'' ''III'') (initial None)"
    by (metis list.inject prod.inject zero_neq_one)
  with a b show ?thesis by simp
qed

end
